theory Spec2Isabelle
  imports Main "HOL-Library.Word"
begin

section \<open>The input preprocessor (packages/parse5/lib/tokenizer/preprocessor.ts)\<close>

subsection \<open>Code points and the helpers of common/unicode\<close>

text \<open>
  A JavaScript string is a sequence of 16-bit code units; \<open>charCodeAt\<close> reads one as a
  number. Numbers that hold code points or positions are \<open>int\<close>; a value that can be
  \<open>NaN\<close> or \<open>undefined\<close> in the source is an \<open>option\<close>, with \<open>None\<close> for it.
\<close>

type_synonym code_unit = "16 word"

text \<open>
  Modelled from the spec: \<open>CODE_POINTS\<close> of common/unicode.js, which is not among the
  sources. \<open>EOF\<close> is the sentinel outside the Unicode range (the spec's \<open>-1\<close>); the other
  two are U+000D and U+000A.
\<close>

definition EOF :: int where
  "EOF = -1"

definition CARRIAGE_RETURN :: int where
  "CARRIAGE_RETURN = 0x0D"

definition LINE_FEED :: int where
  "LINE_FEED = 0x0A"

text \<open>
  Modelled from the spec: the surrogate helpers of common/unicode.js, which is not among
  the sources. The spec speaks of the high and the low half of a surrogate pair and of
  combining a well-formed pair into a single code point; these are the UTF-16 ranges
  D800..DFFF (any surrogate) and DC00..DFFF (a trailing one), and the UTF-16 decoding of
  a pair.
\<close>

definition isSurrogate :: "int \<Rightarrow> bool" where
  "isSurrogate cp \<longleftrightarrow> 0xD800 \<le> cp \<and> cp \<le> 0xDFFF"

definition isSurrogatePair :: "int \<Rightarrow> bool" where
  "isSurrogatePair cp \<longleftrightarrow> 0xDC00 \<le> cp \<and> cp \<le> 0xDFFF"

definition getSurrogatePairCodePoint :: "int \<Rightarrow> int \<Rightarrow> int" where
  "getSurrogatePairCodePoint cp1 cp2 = (cp1 - 0xD800) * 0x400 + 0x2400 + cp2"

text \<open>
  \<open>isControlCodePoint\<close> and \<open>isUndefinedCodePoint\<close> of common/unicode.js are tables the
  sources do not contain and the spec does not describe. They are parameters of the
  model: every function that consults them takes the pair of predicates.
\<close>

record code_point_tables =
  isControlCodePoint :: "int \<Rightarrow> bool"
  isUndefinedCodePoint :: "int \<Rightarrow> bool"

subsection \<open>Errors and the handler\<close>

text \<open>The three codes of \<open>ERR\<close> (common/error-codes) that the preprocessor raises.\<close>

datatype ERR =
  surrogateInInputStream
| controlCharacterInInputStream
| noncharacterInInputStream

record ParserError =
  code :: ERR
  startLine :: int
  endLine :: int
  startCol :: int
  endCol :: int
  startOffset :: int
  endOffset :: int

text \<open>
  \<open>handler.onParseError\<close> is optional and nullable. \<open>_err\<close> tests it for truthiness,
  \<open>advance\<close> compares it with \<open>null\<close>, so the three cases are kept apart.
\<close>

datatype onParseError = Undefined | Null | Callback

subsection \<open>The state\<close>

text \<open>
  The fields of the class, with their initial values in \<open>Preprocessor\<close> below. The
  invocations of the \<open>onParseError\<close> callback are recorded in \<open>reported\<close>, oldest first.
  \<open>gapStack\<close> is a stack: its top (the end of the JavaScript array) is the head of the
  list. \<open>gapStack.pop()\<close> on an empty array yields \<open>undefined\<close>, so \<open>lastGapPos\<close> and the
  stack entries are optional numbers.
\<close>

record preprocessor =
  html :: "code_unit list"
  pos :: int
  lastGapPos :: "int option"
  gapStack :: "int option list"
  skipNextNewLine :: bool
  lastChunkWritten :: bool
  endOfChunkHit :: bool
  bufferWaterline :: int
  isEol :: bool
  lineStartPos :: int
  droppedBufferSize :: int
  line :: int
  handler :: onParseError
  lastErrOffset :: int
  reported :: "ParserError list"

definition DEFAULT_BUFFER_WATERLINE :: int where
  "DEFAULT_BUFFER_WATERLINE = 2 ^ 16"

definition Preprocessor :: "onParseError \<Rightarrow> preprocessor" where
  "Preprocessor h =
     \<lparr> html = [], pos = -1, lastGapPos = Some (-2), gapStack = [],
       skipNextNewLine = False, lastChunkWritten = False, endOfChunkHit = False,
       bufferWaterline = DEFAULT_BUFFER_WATERLINE, isEol = False, lineStartPos = 0,
       droppedBufferSize = 0, line = 1, handler = h, lastErrOffset = -1,
       reported = [] \<rparr>"

subsection \<open>Getters\<close>

text \<open>\<open>Number(this.lastGapPos !== this.pos)\<close> is 1 when the two differ, also when
  \<open>lastGapPos\<close> is \<open>undefined\<close>.\<close>

definition col :: "preprocessor \<Rightarrow> int" where
  "col p = pos p - lineStartPos p + (if lastGapPos p \<noteq> Some (pos p) then 1 else 0)"

definition offset :: "preprocessor \<Rightarrow> int" where
  "offset p = droppedBufferSize p + pos p"

definition getError :: "preprocessor \<Rightarrow> ERR \<Rightarrow> ParserError" where
  "getError p c =
     \<lparr> code = c, startLine = line p, endLine = line p, startCol = col p, endCol = col p,
       startOffset = offset p, endOffset = offset p \<rparr>"

definition err :: "ERR \<Rightarrow> preprocessor \<Rightarrow> preprocessor" where
  "err c p =
     (if handler p = Callback \<and> lastErrOffset p \<noteq> offset p
      then (let p' = p\<lparr>lastErrOffset := offset p\<rparr>
            in p'\<lparr>reported := reported p' @ [getError p' c]\<rparr>)
      else p)"

definition addGap :: "preprocessor \<Rightarrow> preprocessor" where
  "addGap p = p\<lparr>gapStack := lastGapPos p # gapStack p, lastGapPos := Some (pos p)\<rparr>"

subsection \<open>Reading the buffer\<close>

text \<open>\<open>String.prototype.charCodeAt\<close>: \<open>NaN\<close> outside the string.\<close>

definition charCodeAt :: "code_unit list \<Rightarrow> int \<Rightarrow> int option" where
  "charCodeAt s i = (if 0 \<le> i \<and> i < int (length s) then Some (uint (s ! nat i)) else None)"

text \<open>\<open>String.prototype.substring\<close> with one and with two arguments: indices are clamped
  to the string, and the two-argument form swaps them when the first is larger.\<close>

definition substring_from :: "code_unit list \<Rightarrow> int \<Rightarrow> code_unit list" where
  "substring_from s i = drop (nat i) s"

definition substring :: "code_unit list \<Rightarrow> int \<Rightarrow> int \<Rightarrow> code_unit list" where
  "substring s i j = (let a = min (nat i) (nat j); b = max (nat i) (nat j)
                      in take (b - a) (drop a s))"

text \<open>
  \<open>_processSurrogate\<close> is called with the code unit at \<open>pos\<close>, which is inside the buffer.
  It returns the code point and the state.
\<close>

definition processSurrogate :: "int \<Rightarrow> preprocessor \<Rightarrow> int \<times> preprocessor" where
  "processSurrogate cp p =
     (if pos p \<noteq> int (length (html p)) - 1
      then (case charCodeAt (html p) (pos p + 1) of
              Some nextCp \<Rightarrow>
                if isSurrogatePair nextCp
                then (getSurrogatePairCodePoint cp nextCp, addGap (p\<lparr>pos := pos p + 1\<rparr>))
                else (cp, err surrogateInInputStream p)
            | None \<Rightarrow> (cp, err surrogateInInputStream p))
      else if \<not> lastChunkWritten p
      then (EOF, p\<lparr>endOfChunkHit := True\<rparr>)
      else (cp, err surrogateInInputStream p))"

subsection \<open>Buffer management\<close>

definition willDropParsedChunk :: "preprocessor \<Rightarrow> bool" where
  "willDropParsedChunk p \<longleftrightarrow> pos p > bufferWaterline p"

definition dropParsedChunk :: "preprocessor \<Rightarrow> preprocessor" where
  "dropParsedChunk p =
     (if willDropParsedChunk p
      then p\<lparr> html := substring_from (html p) (pos p),
              lineStartPos := lineStartPos p - pos p,
              droppedBufferSize := droppedBufferSize p + pos p,
              pos := 0,
              lastGapPos := Some (-2),
              gapStack := [] \<rparr>
      else p)"

text \<open>\<open>write\<close> of the class; the name is taken by an Isabelle command.\<close>

definition write_chunk :: "code_unit list \<Rightarrow> bool \<Rightarrow> preprocessor \<Rightarrow> preprocessor" where
  "write_chunk chunk isLastChunk p =
     p\<lparr> html := (if length (html p) > 0 then html p @ chunk else chunk),
        endOfChunkHit := False,
        lastChunkWritten := isLastChunk \<rparr>"

definition insertHtmlAtCurrentPos :: "code_unit list \<Rightarrow> preprocessor \<Rightarrow> preprocessor" where
  "insertHtmlAtCurrentPos chunk p =
     p\<lparr> html := substring (html p) 0 (pos p + 1) @ chunk @ substring_from (html p) (pos p + 1),
        endOfChunkHit := False \<rparr>"

subsection \<open>The cursor\<close>

definition checkForProblematicCharacters ::
  "code_point_tables \<Rightarrow> int \<Rightarrow> preprocessor \<Rightarrow> preprocessor" where
  "checkForProblematicCharacters T cp p =
     (if isControlCodePoint T cp then err controlCharacterInInputStream p
      else if isUndefinedCodePoint T cp then err noncharacterInInputStream p
      else p)"

text \<open>The first statements of \<open>advance\<close>: the increment and the deferred line break.\<close>

definition nextPos :: "preprocessor \<Rightarrow> preprocessor" where
  "nextPos p =
     (let p1 = p\<lparr>pos := pos p + 1\<rparr>
      in if isEol p1 then p1\<lparr>isEol := False, line := line p1 + 1, lineStartPos := pos p1\<rparr>
         else p1)"

text \<open>The last statements of \<open>advance\<close>: the range check of the code point returned.\<close>

definition validate :: "code_point_tables \<Rightarrow> int \<Rightarrow> preprocessor \<Rightarrow> preprocessor" where
  "validate T cp p =
     (let isCommonValidRange =
            (handler p = Null \<or> (cp > 0x1F \<and> cp < 0x7F) \<or> cp = LINE_FEED \<or>
             cp = CARRIAGE_RETURN \<or> (cp > 0x9F \<and> cp < 0xFDD0))
      in if \<not> isCommonValidRange then checkForProblematicCharacters T cp p else p)"

text \<open>
  \<open>advance\<close> returns the code point and the state. \<open>pos\<close> can be negative after a
  \<open>retreat\<close> beyond the start; \<open>charCodeAt\<close> is then \<open>NaN\<close>, which equals no code point,
  is in no range and passes through every helper, so \<open>NaN\<close> is returned.
\<close>

function advance :: "code_point_tables \<Rightarrow> preprocessor \<Rightarrow> int option \<times> preprocessor" where
  "advance T p =
     (let p2 = nextPos p
      in if pos p2 \<ge> int (length (html p2))
         then (Some EOF, p2\<lparr>endOfChunkHit := \<not> lastChunkWritten p2\<rparr>)
         else (case charCodeAt (html p2) (pos p2) of
                 None \<Rightarrow> (None, p2\<lparr>skipNextNewLine := False\<rparr>)
               | Some cp \<Rightarrow>
                   if cp = CARRIAGE_RETURN
                   then (Some LINE_FEED, p2\<lparr>isEol := True, skipNextNewLine := True\<rparr>)
                   else if cp = LINE_FEED \<and> skipNextNewLine p2
                   then advance T (addGap (p2\<lparr>isEol := True, line := line p2 - 1,
                                               skipNextNewLine := False\<rparr>))
                   else (let p3 = (if cp = LINE_FEED then p2\<lparr>isEol := True\<rparr> else p2);
                             p4 = p3\<lparr>skipNextNewLine := False\<rparr>;
                             (cp', p5) = (if isSurrogate cp then processSurrogate cp p4
                                          else (cp, p4))
                         in (Some cp', validate T cp' p5))))"
  by pat_completeness auto
termination
  by (relation "measure (\<lambda>(T, p). if skipNextNewLine p then 1 else 0)")
     (auto simp: nextPos_def addGap_def Let_def split: if_splits)

declare advance.simps [simp del]

text \<open>
  For the proofs, \<open>advance\<close> is split at its recursive call, which is made at most once:
  \<open>skipsLineFeed\<close> is the condition of the call, \<open>skipLineFeed\<close> the state passed to it,
  and \<open>readCodePoint\<close> the rest of the function (lemma \<open>advance_unfold\<close>).
\<close>

definition skipsLineFeed :: "preprocessor \<Rightarrow> bool" where
  "skipsLineFeed p \<longleftrightarrow>
     charCodeAt (html p) (pos p + 1) = Some LINE_FEED \<and> skipNextNewLine p"

definition skipLineFeed :: "preprocessor \<Rightarrow> preprocessor" where
  "skipLineFeed p =
     (let p2 = nextPos p
      in addGap (p2\<lparr>isEol := True, line := line p2 - 1, skipNextNewLine := False\<rparr>))"

definition readCodePoint :: "code_point_tables \<Rightarrow> preprocessor \<Rightarrow> int option \<times> preprocessor" where
  "readCodePoint T p =
     (let p2 = nextPos p
      in if pos p2 \<ge> int (length (html p2))
         then (Some EOF, p2\<lparr>endOfChunkHit := \<not> lastChunkWritten p2\<rparr>)
         else (case charCodeAt (html p2) (pos p2) of
                 None \<Rightarrow> (None, p2\<lparr>skipNextNewLine := False\<rparr>)
               | Some cp \<Rightarrow>
                   if cp = CARRIAGE_RETURN
                   then (Some LINE_FEED, p2\<lparr>isEol := True, skipNextNewLine := True\<rparr>)
                   else (let p3 = (if cp = LINE_FEED then p2\<lparr>isEol := True\<rparr> else p2);
                             p4 = p3\<lparr>skipNextNewLine := False\<rparr>;
                             (cp', p5) = (if isSurrogate cp then processSurrogate cp p4
                                          else (cp, p4))
                         in (Some cp', validate T cp' p5))))"

text \<open>The loop of \<open>retreat\<close>, on the three fields it changes. \<open>pos < undefined\<close> is false.\<close>

fun unwind :: "int \<Rightarrow> int option \<Rightarrow> int option list \<Rightarrow> int \<times> int option \<times> int option list" where
  "unwind ps None st = (ps, None, st)"
| "unwind ps (Some g) [] = (if ps < g then (ps - 1, None, []) else (ps, Some g, []))"
| "unwind ps (Some g) (x # xs) =
     (if ps < g then unwind (ps - 1) x xs else (ps, Some g, x # xs))"

definition retreat :: "int \<Rightarrow> preprocessor \<Rightarrow> preprocessor" where
  "retreat count p =
     (case unwind (pos p - count) (lastGapPos p) (gapStack p) of
        (ps, g, st) \<Rightarrow> p\<lparr>pos := ps, lastGapPos := g, gapStack := st, isEol := False\<rparr>)"

subsection \<open>Runs of the cursor\<close>

text \<open>
  What a caller sees of one \<open>advance\<close>: the code point returned and \<open>line\<close>, \<open>col\<close> and
  \<open>offset\<close> read right after the call.
\<close>

type_synonym observation = "int option \<times> int \<times> int \<times> int"

fun advances :: "code_point_tables \<Rightarrow> nat \<Rightarrow> preprocessor \<Rightarrow> observation list \<times> preprocessor" where
  "advances T 0 p = ([], p)"
| "advances T (Suc n) p =
     (case advance T p of (cp, p') \<Rightarrow>
        (case advances T n p' of (obs, p'') \<Rightarrow>
           ((cp, line p', col p', offset p') # obs, p'')))"

text \<open>The calls a tokenizer makes on a preprocessor, and a sequence of them.\<close>

datatype operation =
  Advance
| Retreat int
| Write "code_unit list" bool
| InsertHtmlAtCurrentPos "code_unit list"
| DropParsedChunk

fun apply_operation :: "code_point_tables \<Rightarrow> preprocessor \<Rightarrow> operation \<Rightarrow> preprocessor" where
  "apply_operation T p Advance = snd (advance T p)"
| "apply_operation T p (Retreat n) = retreat n p"
| "apply_operation T p (Write chunk isLastChunk) = write_chunk chunk isLastChunk p"
| "apply_operation T p (InsertHtmlAtCurrentPos chunk) = insertHtmlAtCurrentPos chunk p"
| "apply_operation T p DropParsedChunk = dropParsedChunk p"

definition run :: "code_point_tables \<Rightarrow> operation list \<Rightarrow> preprocessor \<Rightarrow> preprocessor" where
  "run T ops p = foldl (apply_operation T) p ops"

text \<open>
  An instance of the two tables for the examples, after the HTML standard's definitions
  of the two parse errors: a control is a C0 control other than ASCII whitespace and
  NULL, or U+007F..U+009F; a noncharacter is U+FDD0..U+FDEF or a code point ending in
  FFFE or FFFF.
\<close>

definition standard_tables :: code_point_tables where
  "standard_tables =
     \<lparr> isControlCodePoint = (\<lambda>cp.
         (cp \<noteq> 0x20 \<and> cp \<noteq> 0x0A \<and> cp \<noteq> 0x0D \<and> cp \<noteq> 0x09 \<and> cp \<noteq> 0x0C \<and>
          cp \<ge> 0x01 \<and> cp \<le> 0x1F) \<or> (cp \<ge> 0x7F \<and> cp \<le> 0x9F)),
       isUndefinedCodePoint = (\<lambda>cp.
         (cp \<ge> 0xFDD0 \<and> cp \<le> 0xFDEF) \<or>
         (0 \<le> cp \<and> cp \<le> 0x10FFFF \<and> cp mod 0x10000 \<ge> 0xFFFE)) \<rparr>"

section \<open>The scriptable driver (packages/parse5-parser-stream/lib/index.ts)\<close>

text \<open>
  The tokenizer and the parser are not among the sources. Of the tokenizer the driver
  reads \<open>active\<close> and calls \<open>insertHtmlAtCurrentPos\<close>; of the parser it reads \<open>stopped\<close> and
  enters the parsing loop. The two calls are parameters of \<open>resume\<close> below.
\<close>

record tokenizer =
  active :: bool
  preprocessor :: preprocessor

record parser =
  tokenizer :: tokenizer
  stopped :: bool

text \<open>
  Modelled from the spec: \<open>Tokenizer.insertHtmlAtCurrentPos\<close>, which is not among the
  sources; the spec describes it as forwarding to the preprocessor.
\<close>

definition tokenizer_insertHtmlAtCurrentPos :: "code_unit list \<Rightarrow> tokenizer \<Rightarrow> tokenizer" where
  "tokenizer_insertHtmlAtCurrentPos chunk t =
     t\<lparr>preprocessor := insertHtmlAtCurrentPos chunk (preprocessor t)\<rparr>"

text \<open>
  The fields of \<open>ParserStream\<close> that \<open>_resume\<close> and \<open>_documentWrite\<close> use.
  \<open>pendingHtmlInsertions\<close> is in the order of the JavaScript array: \<open>push\<close> appends and
  \<open>pop\<close> takes the last element.
\<close>

record ParserStream =
  pausedByScript :: bool
  parser :: parser
  pendingHtmlInsertions :: "code_unit list list"

datatype stream_error = ParserWasAlreadyResumed

definition documentWrite :: "code_unit list \<Rightarrow> ParserStream \<Rightarrow> ParserStream" where
  "documentWrite h s =
     (if \<not> stopped (parser s)
      then s\<lparr>pendingHtmlInsertions := pendingHtmlInsertions s @ [h]\<rparr>
      else s)"

text \<open>The \<open>while\<close> loop of \<open>_resume\<close>; \<open>ins\<close> is the tokenizer's \<open>insertHtmlAtCurrentPos\<close>.\<close>

function drainInsertions ::
  "(code_unit list \<Rightarrow> tokenizer \<Rightarrow> tokenizer) \<Rightarrow> ParserStream \<Rightarrow> ParserStream" where
  "drainInsertions ins s =
     (if length (pendingHtmlInsertions s) > 0
      then (let h = last (pendingHtmlInsertions s);
                s1 = s\<lparr>pendingHtmlInsertions := butlast (pendingHtmlInsertions s)\<rparr>
            in drainInsertions ins
                 (s1\<lparr>parser := (parser s1)\<lparr>tokenizer := ins h (tokenizer (parser s1))\<rparr>\<rparr>))
      else s)"
  by pat_completeness auto
termination
  by (relation "measure (\<lambda>(ins, s). length (pendingHtmlInsertions s))") auto

declare drainInsertions.simps [simp del]

text \<open>
  \<open>_resume\<close>. The parsing loop of the parser, which \<open>_runParsingLoop\<close> enters, is the
  parameter \<open>runParsingLoop\<close>. The \<open>throw\<close> is the left summand.
\<close>

definition resume ::
  "(code_unit list \<Rightarrow> tokenizer \<Rightarrow> tokenizer) \<Rightarrow> (ParserStream \<Rightarrow> ParserStream) \<Rightarrow>
   ParserStream \<Rightarrow> stream_error + ParserStream" where
  "resume ins runParsingLoop s =
     (if \<not> pausedByScript s then Inl ParserWasAlreadyResumed
      else (let s1 = drainInsertions ins s;
                s2 = s1\<lparr>pausedByScript := False\<rparr>
            in if active (tokenizer (parser s2)) then Inr (runParsingLoop s2) else Inr s2))"

section \<open>Auxiliary notions for the proofs\<close>

text \<open>
  The invariant behind the error deduplication of \<open>_err\<close>: consecutive reports differ in
  their \<open>startOffset\<close>, and \<open>lastErrOffset\<close> is the offset of the last report.
\<close>

definition dedupInvariant :: "preprocessor \<Rightarrow> bool" where
  "dedupInvariant p \<longleftrightarrow>
     distinct_adj (map startOffset (reported p)) \<and>
     (reported p = [] \<or> startOffset (last (reported p)) = lastErrOffset p)"

text \<open>
  The fields that decide what \<open>advance\<close> returns and what \<open>line\<close>, \<open>col\<close> and \<open>offset\<close>
  show; the error bookkeeping, \<open>endOfChunkHit\<close> and \<open>bufferWaterline\<close> are left out.
\<close>

definition cursor ::
  "preprocessor \<Rightarrow>
   code_unit list \<times> int \<times> int option \<times> int option list \<times> bool \<times> bool \<times> bool \<times> int \<times> int \<times> int" where
  "cursor p =
     (html p, pos p, lastGapPos p, gapStack p, skipNextNewLine p, lastChunkWritten p,
      isEol p, lineStartPos p, droppedBufferSize p, line p)"

text \<open>The last gap is not ahead of the cursor.\<close>

definition gapsBehind :: "preprocessor \<Rightarrow> bool" where
  "gapsBehind p \<longleftrightarrow> (case lastGapPos p of None \<Rightarrow> False | Some g \<Rightarrow> g \<le> pos p)"

text \<open>
  Where \<open>retreat\<close> lands when it undoes the \<open>advance\<close> calls made from a state: on the
  state's own position, or, when the first of the calls stepped over a line feed, on the
  gap recorded for that line feed.
\<close>

definition landing :: "preprocessor \<Rightarrow> int \<times> int option \<times> int option list" where
  "landing p =
     (if skipsLineFeed p then (pos p + 1, Some (pos p + 1), lastGapPos p # gapStack p)
      else (pos p, lastGapPos p, gapStack p))"

text \<open>No line break is pending: the next \<open>advance\<close> neither starts a line nor steps over
  a line feed.\<close>

definition noLineBreakPending :: "preprocessor \<Rightarrow> bool" where
  "noLineBreakPending p \<longleftrightarrow>
     \<not> isEol p \<and> (\<not> skipNextNewLine p \<or> int (length (html p)) \<le> pos p + 1)"

text \<open>
  The position that \<open>advance\<close> reads: the incremented \<open>pos\<close>, or the one after it when the
  line feed of a CR LF is stepped over first.
\<close>

definition readPosition :: "preprocessor \<Rightarrow> int" where
  "readPosition p = (if skipsLineFeed p then pos p + 2 else pos p + 1)"

text \<open>
  The spec's normalisation of line breaks, as a function on a sequence of code units, for
  the comparison with \<open>advance\<close>: a carriage return becomes a line feed, and a line feed
  right after a carriage return is dropped. \<open>afterCR\<close> tells whether the code unit before
  the sequence was a carriage return.
\<close>

fun normalizeNewlines :: "bool \<Rightarrow> int list \<Rightarrow> int list" where
  "normalizeNewlines afterCR [] = []"
| "normalizeNewlines afterCR (u # us) =
     (if u = CARRIAGE_RETURN then LINE_FEED # normalizeNewlines True us
      else if u = LINE_FEED \<and> afterCR then normalizeNewlines False us
      else u # normalizeNewlines False us)"

text \<open>
  The code points that \<open>advance\<close> has still to return from a buffer without surrogates:
  the normalisation of the code units after \<open>pos\<close>.
\<close>

definition pending :: "preprocessor \<Rightarrow> int list" where
  "pending p =
     normalizeNewlines (skipNextNewLine p) (map uint (drop (nat (pos p + 1)) (html p)))"

section \<open>Basic facts about the preprocessor\<close>

subsection \<open>What the parts of \<open>advance\<close> leave unchanged\<close>

lemma nextPos_frame [simp]:
  "html (nextPos p) = html p" "lastChunkWritten (nextPos p) = lastChunkWritten p"
  "pos (nextPos p) = pos p + 1" "skipNextNewLine (nextPos p) = skipNextNewLine p"
  "lastGapPos (nextPos p) = lastGapPos p" "gapStack (nextPos p) = gapStack p"
  "handler (nextPos p) = handler p" "reported (nextPos p) = reported p"
  "lastErrOffset (nextPos p) = lastErrOffset p" "droppedBufferSize (nextPos p) = droppedBufferSize p"
  "endOfChunkHit (nextPos p) = endOfChunkHit p" "bufferWaterline (nextPos p) = bufferWaterline p"
  "isEol (nextPos p) = False"
  by (simp_all add: nextPos_def Let_def)

lemma err_frame [simp]:
  "html (err c p) = html p" "lastChunkWritten (err c p) = lastChunkWritten p"
  "pos (err c p) = pos p" "skipNextNewLine (err c p) = skipNextNewLine p"
  "lastGapPos (err c p) = lastGapPos p" "gapStack (err c p) = gapStack p"
  "handler (err c p) = handler p" "isEol (err c p) = isEol p"
  "line (err c p) = line p" "lineStartPos (err c p) = lineStartPos p"
  "droppedBufferSize (err c p) = droppedBufferSize p"
  "endOfChunkHit (err c p) = endOfChunkHit p" "bufferWaterline (err c p) = bufferWaterline p"
  by (simp_all add: err_def Let_def)

lemma validate_frame [simp]:
  "html (validate T c p) = html p" "lastChunkWritten (validate T c p) = lastChunkWritten p"
  "pos (validate T c p) = pos p" "skipNextNewLine (validate T c p) = skipNextNewLine p"
  "lastGapPos (validate T c p) = lastGapPos p" "gapStack (validate T c p) = gapStack p"
  "handler (validate T c p) = handler p" "isEol (validate T c p) = isEol p"
  "line (validate T c p) = line p" "lineStartPos (validate T c p) = lineStartPos p"
  "droppedBufferSize (validate T c p) = droppedBufferSize p"
  "endOfChunkHit (validate T c p) = endOfChunkHit p" "bufferWaterline (validate T c p) = bufferWaterline p"
  by (simp_all add: validate_def checkForProblematicCharacters_def Let_def)

lemma uint_not_EOF: "uint (w :: code_unit) \<noteq> EOF"
proof -
  have "0 \<le> uint w" by simp
  then show ?thesis unfolding EOF_def by linarith
qed

lemma pair_not_EOF: "isSurrogate a \<Longrightarrow> isSurrogatePair b \<Longrightarrow> getSurrogatePairCodePoint a b \<noteq> EOF"
  by (simp add: isSurrogate_def isSurrogatePair_def getSurrogatePairCodePoint_def EOF_def)

subsection \<open>\<open>advance\<close> without recursion\<close>

lemma code_point_consts [simp]:
  "LINE_FEED \<noteq> CARRIAGE_RETURN" "CARRIAGE_RETURN \<noteq> LINE_FEED"
  "\<not> isSurrogate LINE_FEED" "\<not> isSurrogate CARRIAGE_RETURN"
  "LINE_FEED \<noteq> EOF" "EOF \<noteq> LINE_FEED"
  by (simp_all add: LINE_FEED_def CARRIAGE_RETURN_def isSurrogate_def EOF_def)

lemma skipLineFeed_no_skip: "\<not> skipsLineFeed (skipLineFeed p)"
  by (simp add: skipsLineFeed_def skipLineFeed_def addGap_def Let_def)

lemma advance_not_skipping: "\<not> skipsLineFeed p \<Longrightarrow> advance T p = readCodePoint T p"
  apply (subst advance.simps)
  apply (auto simp: readCodePoint_def skipsLineFeed_def Let_def split: option.splits)
  done

lemma advance_skipping: "skipsLineFeed p \<Longrightarrow> advance T p = advance T (skipLineFeed p)"
  apply (subst advance.simps)
  apply (auto simp: skipsLineFeed_def skipLineFeed_def Let_def charCodeAt_def
              split: option.splits if_splits)
  done

lemma advance_unfold:
  "advance T p =
     (if skipsLineFeed p then readCodePoint T (skipLineFeed p) else readCodePoint T p)"
  by (simp add: advance_skipping advance_not_skipping skipLineFeed_no_skip)

lemma skipLineFeed_frame [simp]:
  "html (skipLineFeed p) = html p" "lastChunkWritten (skipLineFeed p) = lastChunkWritten p"
  "pos (skipLineFeed p) = pos p + 1" "skipNextNewLine (skipLineFeed p) = False"
  "lastGapPos (skipLineFeed p) = Some (pos p + 1)"
  "gapStack (skipLineFeed p) = lastGapPos p # gapStack p"
  "handler (skipLineFeed p) = handler p" "reported (skipLineFeed p) = reported p"
  "lastErrOffset (skipLineFeed p) = lastErrOffset p"
  "droppedBufferSize (skipLineFeed p) = droppedBufferSize p"
  "endOfChunkHit (skipLineFeed p) = endOfChunkHit p"
  "bufferWaterline (skipLineFeed p) = bufferWaterline p"
  "isEol (skipLineFeed p) = True"
  by (simp_all add: skipLineFeed_def addGap_def Let_def)

subsection \<open>The branches of \<open>advance\<close>\<close>

lemma charCodeAt_Some:
  "charCodeAt s i = Some c \<Longrightarrow> 0 \<le> i \<and> i < int (length s) \<and> c = uint (s ! nat i)"
  by (auto simp: charCodeAt_def split: if_splits)

lemma charCodeAt_None: "charCodeAt s i = None \<longleftrightarrow> i < 0 \<or> int (length s) \<le> i"
  by (auto simp: charCodeAt_def)

lemma charCodeAt_not_EOF: "charCodeAt s i \<noteq> Some EOF"
  using uint_not_EOF by (auto simp: charCodeAt_def)

lemma validate_surrogate: "isSurrogate cp \<Longrightarrow> validate T cp p = p"
  by (simp add: validate_def isSurrogate_def)

lemma validate_LINE_FEED: "validate T LINE_FEED p = p"
  by (simp add: validate_def)

lemma readCodePoint_cases [consumes 1, case_names Eof NaN CR Pair Chunk Isolated Plain]:
  assumes "readCodePoint T p = (r, p')"
  obtains
    (Eof) "int (length (html p)) \<le> pos p + 1" "r = Some EOF"
      "p' = (nextPos p)\<lparr>endOfChunkHit := \<not> lastChunkWritten p\<rparr>"
  | (NaN) "pos p + 1 < 0" "pos p + 1 < int (length (html p))" "r = None"
      "p' = (nextPos p)\<lparr>skipNextNewLine := False\<rparr>"
  | (CR) "charCodeAt (html p) (pos p + 1) = Some CARRIAGE_RETURN" "r = Some LINE_FEED"
      "p' = (nextPos p)\<lparr>isEol := True, skipNextNewLine := True\<rparr>"
  | (Pair) cp nextCp where "charCodeAt (html p) (pos p + 1) = Some cp" "isSurrogate cp"
      "charCodeAt (html p) (pos p + 2) = Some nextCp" "isSurrogatePair nextCp"
      "r = Some (getSurrogatePairCodePoint cp nextCp)"
      "p' = validate T (getSurrogatePairCodePoint cp nextCp)
              (addGap ((nextPos p)\<lparr>skipNextNewLine := False, pos := pos p + 2\<rparr>))"
  | (Chunk) cp where "charCodeAt (html p) (pos p + 1) = Some cp" "isSurrogate cp"
      "pos p + 2 = int (length (html p))" "\<not> lastChunkWritten p" "r = Some EOF"
      "p' = validate T EOF ((nextPos p)\<lparr>skipNextNewLine := False, endOfChunkHit := True\<rparr>)"
  | (Isolated) cp where "charCodeAt (html p) (pos p + 1) = Some cp" "isSurrogate cp"
      "(\<exists>n. charCodeAt (html p) (pos p + 2) = Some n \<and> \<not> isSurrogatePair n) \<or>
       (pos p + 2 = int (length (html p)) \<and> lastChunkWritten p)"
      "r = Some cp"
      "p' = err surrogateInInputStream ((nextPos p)\<lparr>skipNextNewLine := False\<rparr>)"
  | (Plain) cp where "charCodeAt (html p) (pos p + 1) = Some cp" "cp \<noteq> CARRIAGE_RETURN"
      "\<not> isSurrogate cp" "r = Some cp"
      "p' = validate T cp ((if cp = LINE_FEED then (nextPos p)\<lparr>isEol := True\<rparr>
                            else nextPos p)\<lparr>skipNextNewLine := False\<rparr>)"
proof (cases "int (length (html p)) \<le> pos p + 1")
  case True
  with assms have "r = Some EOF" "p' = (nextPos p)\<lparr>endOfChunkHit := \<not> lastChunkWritten p\<rparr>"
    by (auto simp: readCodePoint_def Let_def)
  with True show ?thesis by (rule Eof)
next
  case inside: False
  show ?thesis
  proof (cases "charCodeAt (html p) (pos p + 1)")
    case None
    with assms inside have "r = None" "p' = (nextPos p)\<lparr>skipNextNewLine := False\<rparr>"
      by (auto simp: readCodePoint_def Let_def)
    moreover from None inside have "pos p + 1 < 0" "pos p + 1 < int (length (html p))"
      by (auto simp: charCodeAt_None)
    ultimately show ?thesis using NaN by blast
  next
    case (Some cp)
    show ?thesis
    proof (cases "cp = CARRIAGE_RETURN")
      case True
      with assms inside Some
      have "r = Some LINE_FEED" "p' = (nextPos p)\<lparr>isEol := True, skipNextNewLine := True\<rparr>"
        by (auto simp: readCodePoint_def Let_def)
      with Some True show ?thesis using CR by blast
    next
      case noCR: False
      show ?thesis
      proof (cases "isSurrogate cp")
        case False
        with assms inside Some noCR
        have "r = Some cp"
          "p' = validate T cp ((if cp = LINE_FEED then (nextPos p)\<lparr>isEol := True\<rparr>
                                else nextPos p)\<lparr>skipNextNewLine := False\<rparr>)"
          by (auto simp: readCodePoint_def Let_def)
        with Some noCR False show ?thesis using Plain by blast
      next
        case surr: True
        then have noLF: "cp \<noteq> LINE_FEED" by auto
        let ?q = "(nextPos p)\<lparr>skipNextNewLine := False\<rparr>"
        from inside Some noCR surr noLF
        have "readCodePoint T p =
                (case processSurrogate cp ?q of (c, q) \<Rightarrow> (Some c, validate T c q))"
          unfolding readCodePoint_def by simp
        with assms
        have eq: "(r, p') = (case processSurrogate cp ?q of (c, q) \<Rightarrow> (Some c, validate T c q))"
          by simp
        show ?thesis
        proof (cases "pos p + 2 = int (length (html p))")
          case last: True
          show ?thesis
          proof (cases "lastChunkWritten p")
            case True
            with eq last surr
            have "r = Some cp" "p' = err surrogateInInputStream ?q"
              by (simp_all add: processSurrogate_def validate_surrogate)
            with Some surr last True show ?thesis using Isolated by blast
          next
            case False
            with eq last
            have "r = Some EOF"
              "p' = validate T EOF ((nextPos p)\<lparr>skipNextNewLine := False, endOfChunkHit := True\<rparr>)"
              by (simp_all add: processSurrogate_def)
            with Some surr last False show ?thesis using Chunk by blast
          qed
        next
          case notlast: False
          with inside charCodeAt_Some [OF Some]
          obtain n where n: "charCodeAt (html p) (pos p + 2) = Some n"
            by (cases "charCodeAt (html p) (pos p + 2)") (auto simp: charCodeAt_None)
          show ?thesis
          proof (cases "isSurrogatePair n")
            case True
            with eq notlast n
            have "r = Some (getSurrogatePairCodePoint cp n)"
              "p' = validate T (getSurrogatePairCodePoint cp n)
                      (addGap ((nextPos p)\<lparr>skipNextNewLine := False, pos := pos p + 2\<rparr>))"
              by (simp_all add: processSurrogate_def add.commute)
            with Some surr n True show ?thesis using Pair by blast
          next
            case False
            with eq notlast n surr
            have "r = Some cp" "p' = err surrogateInInputStream ?q"
              by (simp_all add: processSurrogate_def validate_surrogate add.commute)
            with Some surr n False show ?thesis using Isolated by blast
          qed
        qed
      qed
    qed
  qed
qed

lemma addGap_frame [simp]:
  "html (addGap p) = html p" "lastChunkWritten (addGap p) = lastChunkWritten p"
  "pos (addGap p) = pos p" "skipNextNewLine (addGap p) = skipNextNewLine p"
  "lastGapPos (addGap p) = Some (pos p)" "gapStack (addGap p) = lastGapPos p # gapStack p"
  "handler (addGap p) = handler p" "reported (addGap p) = reported p"
  "lastErrOffset (addGap p) = lastErrOffset p"
  "droppedBufferSize (addGap p) = droppedBufferSize p"
  "endOfChunkHit (addGap p) = endOfChunkHit p" "bufferWaterline (addGap p) = bufferWaterline p"
  "isEol (addGap p) = isEol p" "line (addGap p) = line p" "lineStartPos (addGap p) = lineStartPos p"
  by (simp_all add: addGap_def)

section \<open>The claims about the preprocessor\<close>

subsection \<open>The column\<close>

text \<open>
  C1, as the code has it: in every state the \<open>col\<close> getter is \<open>pos - lineStartPos\<close>, plus 1
  exactly when \<open>lastGapPos\<close> differs from \<open>pos\<close>; right after a gap it is the index
  before.
\<close>

theorem col_getter:
  "col p = pos p - lineStartPos p + (if lastGapPos p = Some (pos p) then 0 else 1)"
  by (simp add: col_def)

text \<open>
  With the 1 added when \<open>lastGapPos\<close> equals \<open>pos\<close> instead, the column of a new
  preprocessor would be -1; the getter returns 0 there.
\<close>

theorem col_getter_counterexample:
  "col (Preprocessor Callback) = 0 \<and>
   pos (Preprocessor Callback) - lineStartPos (Preprocessor Callback) +
     (if lastGapPos (Preprocessor Callback) = Some (pos (Preprocessor Callback))
      then 1 else 0) = -1"
  by (simp add: col_def Preprocessor_def)

subsection \<open>Dropping the parsed chunk\<close>

text \<open>
  C3, as the code has it: when \<open>pos > bufferWaterline\<close>, \<open>dropParsedChunk\<close> removes the
  first \<open>pos\<close> code units of \<open>html\<close>, adds \<open>pos\<close> to \<open>droppedBufferSize\<close>, sets \<open>pos\<close> to 0,
  moves \<open>lineStartPos\<close> down by the old \<open>pos\<close> (it is not reset to 0), resets \<open>lastGapPos\<close>
  to -2 and empties \<open>gapStack\<close>, and changes no other field; when \<open>pos \<le> bufferWaterline\<close>
  it changes nothing.
\<close>

theorem dropParsedChunk_effect:
  "(pos p > bufferWaterline p \<longrightarrow>
      dropParsedChunk p =
        p\<lparr> html := drop (nat (pos p)) (html p),
           droppedBufferSize := droppedBufferSize p + pos p,
           pos := 0,
           lineStartPos := lineStartPos p - pos p,
           lastGapPos := Some (-2),
           gapStack := [] \<rparr>) \<and>
   (pos p \<le> bufferWaterline p \<longrightarrow> dropParsedChunk p = p)"
  by (simp add: dropParsedChunk_def willDropParsedChunk_def substring_from_def)

theorem dropParsedChunk_effect_witness:
  "pos ((Preprocessor Callback)\<lparr>html := [0x61, 0x62, 0x63], pos := 2, bufferWaterline := 1\<rparr>)
     > bufferWaterline
         ((Preprocessor Callback)\<lparr>html := [0x61, 0x62, 0x63], pos := 2, bufferWaterline := 1\<rparr>) \<and>
   dropParsedChunk
     ((Preprocessor Callback)\<lparr>html := [0x61, 0x62, 0x63], pos := 2, bufferWaterline := 1\<rparr>) =
     (Preprocessor Callback)\<lparr>html := [0x63], pos := 0, bufferWaterline := 1,
        droppedBufferSize := 2, lineStartPos := -2\<rparr> \<and>
   pos ((Preprocessor Callback)\<lparr>html := [0x61, 0x62, 0x63], pos := 2\<rparr>)
     \<le> bufferWaterline ((Preprocessor Callback)\<lparr>html := [0x61, 0x62, 0x63], pos := 2\<rparr>) \<and>
   dropParsedChunk ((Preprocessor Callback)\<lparr>html := [0x61, 0x62, 0x63], pos := 2\<rparr>) =
     (Preprocessor Callback)\<lparr>html := [0x61, 0x62, 0x63], pos := 2\<rparr>"
  using dropParsedChunk_effect
          [of "(Preprocessor Callback)\<lparr>html := [0x61, 0x62, 0x63], pos := 2, bufferWaterline := 1\<rparr>"]
        dropParsedChunk_effect
          [of "(Preprocessor Callback)\<lparr>html := [0x61, 0x62, 0x63], pos := 2\<rparr>"]
  by (simp add: Preprocessor_def DEFAULT_BUFFER_WATERLINE_def)

text \<open>
  After \<open>abcd\<close> is written to a preprocessor with \<open>bufferWaterline = 1\<close> and three code
  points are read, \<open>pos\<close> is 2 and above the waterline; \<open>dropParsedChunk\<close> leaves
  \<open>lineStartPos\<close> at -2, not at 0.
\<close>

theorem dropParsedChunk_counterexample:
  "pos (run standard_tables [Write [0x61, 0x62, 0x63, 0x64] True, Advance, Advance, Advance]
          ((Preprocessor Callback)\<lparr>bufferWaterline := 1\<rparr>)) >
   bufferWaterline
     (run standard_tables [Write [0x61, 0x62, 0x63, 0x64] True, Advance, Advance, Advance]
        ((Preprocessor Callback)\<lparr>bufferWaterline := 1\<rparr>)) \<and>
   lineStartPos
     (dropParsedChunk
        (run standard_tables [Write [0x61, 0x62, 0x63, 0x64] True, Advance, Advance, Advance]
           ((Preprocessor Callback)\<lparr>bufferWaterline := 1\<rparr>))) = -2"
  by code_simp

text \<open>
  C10: in every state, \<open>dropParsedChunk\<close> leaves \<open>offset\<close> (that is
  \<open>droppedBufferSize + pos\<close>) and \<open>line\<close> unchanged, and the input at and after the
  cursor, \<open>html.substring(pos)\<close>, is the same before and after.
\<close>

theorem dropParsedChunk_unobservable:
  "offset (dropParsedChunk p) = offset p \<and>
   offset p = droppedBufferSize p + pos p \<and>
   line (dropParsedChunk p) = line p \<and>
   substring_from (html (dropParsedChunk p)) (pos (dropParsedChunk p)) =
     substring_from (html p) (pos p)"
  by (simp add: dropParsedChunk_def willDropParsedChunk_def offset_def substring_from_def)

subsection \<open>End of input and end of chunk\<close>

lemma readCodePoint_EOF:
  assumes "readCodePoint T p = (r, p')"
  shows "(int (length (html p)) \<le> pos p' \<longrightarrow>
            r = Some EOF \<and> endOfChunkHit p' = (\<not> lastChunkWritten p)) \<and>
         (r = Some EOF \<longrightarrow>
            endOfChunkHit p' = (\<not> lastChunkWritten p) \<and>
            (int (length (html p)) \<le> pos p' \<or>
             \<not> lastChunkWritten p \<and> pos p' = int (length (html p)) - 1 \<and>
             (\<exists>cp. charCodeAt (html p) (pos p') = Some cp \<and> isSurrogate cp)))"
  using assms
proof (cases rule: readCodePoint_cases)
  case (Pair cp nextCp)
  then show ?thesis
    using pair_not_EOF [of cp nextCp] by (auto dest!: charCodeAt_Some)
next
  case (Isolated cp)
  then show ?thesis
    using charCodeAt_not_EOF [of "html p" "pos p + 1"] by (auto dest!: charCodeAt_Some)
next
  case (Plain cp)
  then show ?thesis
    using charCodeAt_not_EOF [of "html p" "pos p + 1"] by (auto dest!: charCodeAt_Some)
qed (auto dest!: charCodeAt_Some)

subsection \<open>Surrogates\<close>




lemma surrogate_not_skipped:
  "charCodeAt (html p) (pos p + 1) = Some cp \<Longrightarrow> isSurrogate cp \<Longrightarrow> \<not> skipsLineFeed p"
  by (auto simp: skipsLineFeed_def)

subsection \<open>Line breaks\<close>

lemma readCodePoint_gaps:
  assumes "readCodePoint T q = (r, p')"
  shows "html p' = html q \<and> lastChunkWritten p' = lastChunkWritten q \<and>
         droppedBufferSize p' = droppedBufferSize q \<and> handler p' = handler q \<and>
         bufferWaterline p' = bufferWaterline q \<and>
         line p' = line (nextPos q) \<and> lineStartPos p' = lineStartPos (nextPos q) \<and>
         (pos p' = pos q + 1 \<and> lastGapPos p' = lastGapPos q \<and> gapStack p' = gapStack q \<or>
          pos p' = pos q + 2 \<and> lastGapPos p' = Some (pos q + 2) \<and>
          gapStack p' = lastGapPos q # gapStack q)"
  using assms by (cases rule: readCodePoint_cases) auto

lemma advance_frame:
  assumes "advance T p = (r, p')"
  shows "html p' = html p" "lastChunkWritten p' = lastChunkWritten p"
    "droppedBufferSize p' = droppedBufferSize p" "handler p' = handler p"
    "bufferWaterline p' = bufferWaterline p"
  using assms readCodePoint_gaps [of T p r p'] readCodePoint_gaps [of T "skipLineFeed p" r p']
  by (auto simp: advance_unfold split: if_splits)

lemma advance_CR:
  assumes "charCodeAt (html p) (pos p + 1) = Some CARRIAGE_RETURN"
  shows "advance T p = (Some LINE_FEED, (nextPos p)\<lparr>isEol := True, skipNextNewLine := True\<rparr>)"
proof -
  from assms have "\<not> skipsLineFeed p"
    by (simp add: skipsLineFeed_def)
  then have "advance T p = readCodePoint T p"
    by (simp add: advance_unfold)
  with assms show ?thesis
    by (simp add: readCodePoint_def charCodeAt_def split: if_splits)
qed

lemma pair_not_CR:
  "isSurrogate a \<Longrightarrow> isSurrogatePair b \<Longrightarrow> getSurrogatePairCodePoint a b \<noteq> CARRIAGE_RETURN"
  by (simp add: isSurrogate_def isSurrogatePair_def getSurrogatePairCodePoint_def
                CARRIAGE_RETURN_def)

lemma readCodePoint_not_CR: "fst (readCodePoint T p) \<noteq> Some CARRIAGE_RETURN"
proof -
  obtain r p' where eq: "readCodePoint T p = (r, p')"
    by (cases "readCodePoint T p")
  from eq have "r \<noteq> Some CARRIAGE_RETURN"
    by (cases rule: readCodePoint_cases)
       (auto simp: pair_not_CR, auto simp: EOF_def CARRIAGE_RETURN_def)
  with eq show ?thesis by simp
qed

lemma advance_not_CR: "fst (advance T p) \<noteq> Some CARRIAGE_RETURN"
  by (simp add: advance_unfold readCodePoint_not_CR)

lemma advance_skips:
  assumes "skipsLineFeed p"
  shows "pos p + 2 \<le> pos (snd (advance T p)) \<and>
         Some (pos p + 1) \<in> set (lastGapPos (snd (advance T p)) # gapStack (snd (advance T p)))"
proof -
  from assms have "advance T p = readCodePoint T (skipLineFeed p)"
    by (simp add: advance_unfold)
  with readCodePoint_gaps [of T "skipLineFeed p" "fst (advance T p)" "snd (advance T p)"]
  show ?thesis by auto
qed

subsection \<open>Error deduplication\<close>

lemma dedupInvariant_cong:
  "reported a = reported b \<Longrightarrow> lastErrOffset a = lastErrOffset b \<Longrightarrow>
   dedupInvariant a = dedupInvariant b"
  by (simp add: dedupInvariant_def)

lemma dedupInvariant_err: "dedupInvariant p \<Longrightarrow> dedupInvariant (err c p)"
  by (auto simp: dedupInvariant_def err_def Let_def getError_def offset_def
                 distinct_adj_append_iff last_map)

lemma dedupInvariant_validate: "dedupInvariant p \<Longrightarrow> dedupInvariant (validate T c p)"
  by (simp add: validate_def checkForProblematicCharacters_def dedupInvariant_err)

lemma dedupInvariant_nextPos [simp]: "dedupInvariant (nextPos p) = dedupInvariant p"
  by (rule dedupInvariant_cong) simp_all

lemma dedupInvariant_skipLineFeed [simp]: "dedupInvariant (skipLineFeed p) = dedupInvariant p"
  by (rule dedupInvariant_cong) simp_all

lemma dedupInvariant_readCodePoint:
  assumes "readCodePoint T p = (r, p')" and "dedupInvariant p"
  shows "dedupInvariant p'"
proof -
  have same: "dedupInvariant q"
    if "reported q = reported p" "lastErrOffset q = lastErrOffset p" for q
    using that assms(2) dedupInvariant_cong [of q p] by simp
  from assms(1) show ?thesis
  proof (cases rule: readCodePoint_cases)
    case Eof
    then show ?thesis by (simp add: same)
  next
    case NaN
    then show ?thesis by (simp add: same)
  next
    case CR
    then show ?thesis by (simp add: same)
  next
    case (Pair cp nextCp)
    then show ?thesis by (simp add: same dedupInvariant_validate)
  next
    case (Chunk cp)
    then show ?thesis by (simp add: same dedupInvariant_validate)
  next
    case (Isolated cp)
    then show ?thesis by (simp add: same dedupInvariant_err)
  next
    case (Plain cp)
    then show ?thesis by (simp add: same dedupInvariant_validate)
  qed
qed

lemma dedupInvariant_advance: "dedupInvariant p \<Longrightarrow> dedupInvariant (snd (advance T p))"
  using dedupInvariant_readCodePoint [of T p "fst (readCodePoint T p)" "snd (readCodePoint T p)"]
    dedupInvariant_readCodePoint [of T "skipLineFeed p" "fst (readCodePoint T (skipLineFeed p))"
      "snd (readCodePoint T (skipLineFeed p))"]
  by (simp add: advance_unfold)

lemma dedupInvariant_operation:
  "dedupInvariant p \<Longrightarrow> dedupInvariant (apply_operation T p op)"
proof (cases op)
  case Advance
  then show "dedupInvariant p \<Longrightarrow> ?thesis"
    by (simp add: dedupInvariant_advance)
qed (auto simp: dedupInvariant_def retreat_def write_chunk_def insertHtmlAtCurrentPos_def
                dropParsedChunk_def split: prod.splits)

lemma dedupInvariant_run: "dedupInvariant p \<Longrightarrow> dedupInvariant (run T ops p)"
  unfolding run_def
  by (induction ops arbitrary: p) (simp_all add: dedupInvariant_operation)

lemma dedupInvariant_new: "dedupInvariant (Preprocessor h)"
  by (simp add: dedupInvariant_def Preprocessor_def)

text \<open>
  C4, as the code has it: for every sequence of preprocessor operations, the
  \<open>onParseError\<close> callback is never invoked twice in a row with the same \<open>startOffset\<close>,
  whatever the codes. Only the offset of the last report is remembered, so a pair of
  code and offset is reported again when an error at another offset was reported in
  between.
\<close>

theorem error_dedup:
  "distinct_adj (map startOffset (reported (run T ops (Preprocessor h))))"
  using dedupInvariant_run [OF dedupInvariant_new, of T ops h]
  by (simp add: dedupInvariant_def)

theorem error_dedup_witness:
  "distinct_adj (map startOffset (reported (run standard_tables
      [Write [0xD800, 0x41, 0xD800, 0x41] True, Advance, Retreat 1, Advance, Advance, Advance]
      (Preprocessor Callback)))) \<and>
   map startOffset (reported (run standard_tables
      [Write [0xD800, 0x41, 0xD800, 0x41] True, Advance, Retreat 1, Advance, Advance, Advance]
      (Preprocessor Callback))) = [0, 2]"
proof -
  have "map startOffset (reported (run standard_tables
      [Write [0xD800, 0x41, 0xD800, 0x41] True, Advance, Retreat 1, Advance, Advance, Advance]
      (Preprocessor Callback))) = [0, 2]"
    by code_simp
  with error_dedup [of standard_tables
      "[Write [0xD800, 0x41, 0xD800, 0x41] True, Advance, Retreat 1, Advance, Advance, Advance]"
      Callback]
  show ?thesis by simp
qed

text \<open>
  Two isolated surrogates are read, at offsets 0 and 2; the cursor is moved back by three
  and the first is read again: \<open>surrogateInInputStream\<close> at offset 0 is reported a second
  time.
\<close>

theorem error_dedup_counterexample:
  "map (\<lambda>e. (code e, startOffset e)) (reported (run standard_tables
      [Write [0xD800, 0x41, 0xD800, 0x41] True, Advance, Advance, Advance, Retreat 3, Advance]
      (Preprocessor Callback))) =
   [(surrogateInInputStream, 0), (surrogateInInputStream, 2), (surrogateInInputStream, 0)]"
  by code_simp

subsection \<open>Retreating over gaps\<close>

lemma unwind_further:
  "0 \<le> k \<Longrightarrow> unwind x g st = (x', g', st') \<Longrightarrow> unwind (x - k) g st = unwind (x' - k) g' st'"
proof (induction x g st arbitrary: x' g' st' rule: unwind.induct)
  case (1 ps st)
  then show ?case by simp
next
  case (2 ps g)
  then show ?case by (auto split: if_splits)
next
  case (3 ps g x xs)
  show ?case
  proof (cases "ps < g")
    case True
    with "3.prems" have "unwind (ps - 1) x xs = (x', g', st')"
      by simp
    from "3.IH" [OF True "3.prems"(1) this] True "3.prems"(1) show ?thesis
      by (simp add: algebra_simps)
  next
    case False
    with "3.prems" show ?thesis by auto
  qed
qed

lemma unwind_behind: "g \<le> x \<Longrightarrow> unwind x (Some g) st = (x, Some g, st)"
  by (cases st) simp_all

lemma gapsBehind_readCodePoint:
  assumes "readCodePoint T q = (r, p')" and "gapsBehind q"
  shows "gapsBehind p'"
  using readCodePoint_gaps [OF assms(1)] assms(2)
  by (auto simp: gapsBehind_def split: option.splits)

lemma gapsBehind_skipLineFeed: "gapsBehind (skipLineFeed p)"
  by (simp add: gapsBehind_def)

lemma gapsBehind_advance:
  assumes "advance T p = (r, p')" and "gapsBehind p"
  shows "gapsBehind p'"
  using assms gapsBehind_readCodePoint [of T p r p']
    gapsBehind_readCodePoint [of T "skipLineFeed p" r p'] gapsBehind_skipLineFeed [of p]
  by (auto simp: advance_unfold split: if_splits)

lemma readCodePoint_unwind:
  assumes "readCodePoint T q = (r, p')" and "gapsBehind q"
  shows "unwind (pos p' - 1) (lastGapPos p') (gapStack p') = (pos q, lastGapPos q, gapStack q)"
proof -
  from assms(2) obtain g where g: "lastGapPos q = Some g" "g \<le> pos q"
    by (auto simp: gapsBehind_def split: option.splits)
  from readCodePoint_gaps [OF assms(1)] g show ?thesis
    by (auto simp: unwind_behind)
qed

lemma advance_unwind:
  assumes "advance T p = (r, p')" and "gapsBehind p"
  shows "unwind (pos p' - 1) (lastGapPos p') (gapStack p') = landing p"
proof (cases "skipsLineFeed p")
  case True
  with assms(1) have "readCodePoint T (skipLineFeed p) = (r, p')"
    by (simp add: advance_unfold)
  from readCodePoint_unwind [OF this gapsBehind_skipLineFeed] True show ?thesis
    by (simp add: landing_def)
next
  case False
  with assms(1) have "readCodePoint T p = (r, p')"
    by (simp add: advance_unfold)
  from readCodePoint_unwind [OF this assms(2)] False show ?thesis
    by (simp add: landing_def)
qed

lemma landing_unwind:
  assumes "advance T p = (r, p')" and "gapsBehind p" and "landing p' = (x, g, st)"
  shows "unwind (x - 1) g st = landing p"
proof (cases "skipsLineFeed p'")
  case True
  with assms(3) have "unwind (x - 1) g st =
      unwind (pos p' - 1) (lastGapPos p') (gapStack p')"
    by (auto simp: landing_def)
  with advance_unwind [OF assms(1,2)] show ?thesis by simp
next
  case False
  with assms(3) advance_unwind [OF assms(1,2)] show ?thesis
    by (auto simp: landing_def)
qed

lemma advances_Suc:
  "advances T (Suc n) p = (obs, p') \<longleftrightarrow>
     (\<exists>r p1 obs1. advance T p = (r, p1) \<and> advances T n p1 = (obs1, p') \<and>
        obs = (r, line p1, col p1, offset p1) # obs1)"
  by (auto split: prod.splits)

lemma advances_unwind:
  assumes "advances T (Suc n) p = (obs, p')" and "gapsBehind p"
  shows "unwind (pos p' - int (Suc n)) (lastGapPos p') (gapStack p') = landing p"
  using assms
proof (induction n arbitrary: p obs)
  case 0
  then show ?case
    by (auto simp: advance_unwind split: prod.splits)
next
  case (Suc n)
  from Suc.prems(1) obtain r p1 obs1 where
    step: "advance T p = (r, p1)" and rest: "advances T (Suc n) p1 = (obs1, p')"
    unfolding advances_Suc [of T "Suc n"] by blast
  have behind: "gapsBehind p1"
    using gapsBehind_advance [OF step Suc.prems(2)] .
  obtain x g st where l: "landing p1 = (x, g, st)"
    by (cases "landing p1")
  from Suc.IH [OF rest behind] l
  have "unwind (pos p' - int (Suc n)) (lastGapPos p') (gapStack p') = (x, g, st)"
    by simp
  from unwind_further [OF _ this, of 1]
  have "unwind (pos p' - int (Suc (Suc n))) (lastGapPos p') (gapStack p') = unwind (x - 1) g st"
    by (simp add: algebra_simps)
  with landing_unwind [OF step Suc.prems(2) l] show ?case
    by simp
qed

subsection \<open>The cursor decides what is read\<close>

lemma nextPos_line [simp]:
  "line (nextPos p) = (if isEol p then line p + 1 else line p)"
  "lineStartPos (nextPos p) = (if isEol p then pos p + 1 else lineStartPos p)"
  by (simp_all add: nextPos_def Let_def)

lemma skipLineFeed_line [simp]:
  "line (skipLineFeed p) = (if isEol p then line p else line p - 1)"
  "lineStartPos (skipLineFeed p) = (if isEol p then pos p + 1 else lineStartPos p)"
  by (simp_all add: skipLineFeed_def addGap_def nextPos_def Let_def)

lemma cursor_fields:
  assumes "cursor a = cursor b"
  shows "html a = html b" "pos a = pos b" "lastGapPos a = lastGapPos b"
    "gapStack a = gapStack b" "skipNextNewLine a = skipNextNewLine b"
    "lastChunkWritten a = lastChunkWritten b" "isEol a = isEol b"
    "lineStartPos a = lineStartPos b" "droppedBufferSize a = droppedBufferSize b"
    "line a = line b"
  using assms by (simp_all add: cursor_def)

lemma cursor_observation:
  assumes "cursor a = cursor b"
  shows "line a = line b" "col a = col b" "offset a = offset b"
  using cursor_fields [OF assms] by (simp_all add: col_def offset_def)

lemma readCodePoint_cursor:
  assumes eq: "cursor a = cursor b"
    and a: "readCodePoint T a = (ra, a')" and b: "readCodePoint T b = (rb, b')"
  shows "ra = rb \<and> cursor a' = cursor b'"
proof -
  note f = cursor_fields [OF eq]
  from a show ?thesis
  proof (cases rule: readCodePoint_cases)
    case Eof
    from b show ?thesis
      by (cases rule: readCodePoint_cases)
         (use Eof f in \<open>auto simp: cursor_def dest!: charCodeAt_Some\<close>)
  next
    case NaN
    from b show ?thesis
      by (cases rule: readCodePoint_cases)
         (use NaN f in \<open>auto simp: cursor_def dest!: charCodeAt_Some\<close>)
  next
    case CR
    from b show ?thesis
      by (cases rule: readCodePoint_cases)
         (use CR f in \<open>auto simp: cursor_def dest!: charCodeAt_Some\<close>)
  next
    case (Pair cp nextCp)
    from b show ?thesis
      by (cases rule: readCodePoint_cases)
         (use Pair f in \<open>auto simp: cursor_def dest!: charCodeAt_Some\<close>)
  next
    case (Chunk cp)
    from b show ?thesis
      by (cases rule: readCodePoint_cases)
         (use Chunk f in \<open>auto simp: cursor_def dest!: charCodeAt_Some\<close>)
  next
    case (Isolated cp)
    from b show ?thesis
      by (cases rule: readCodePoint_cases)
         (use Isolated f in \<open>auto simp: cursor_def dest!: charCodeAt_Some\<close>)
  next
    case (Plain cp)
    from b show ?thesis
      by (cases rule: readCodePoint_cases)
         (use Plain f in \<open>auto simp: cursor_def dest!: charCodeAt_Some\<close>)
  qed
qed

lemma skipsLineFeed_cursor: "cursor a = cursor b \<Longrightarrow> skipsLineFeed a = skipsLineFeed b"
  by (simp add: skipsLineFeed_def cursor_def)

lemma skipLineFeed_cursor: "cursor a = cursor b \<Longrightarrow> cursor (skipLineFeed a) = cursor (skipLineFeed b)"
  by (simp add: cursor_def)

lemma advance_cursor:
  assumes "cursor a = cursor b"
  shows "fst (advance T a) = fst (advance T b) \<and>
         cursor (snd (advance T a)) = cursor (snd (advance T b))"
proof -
  define qa where "qa = (if skipsLineFeed a then skipLineFeed a else a)"
  define qb where "qb = (if skipsLineFeed b then skipLineFeed b else b)"
  have q: "cursor qa = cursor qb"
    unfolding qa_def qb_def
    using assms skipsLineFeed_cursor [OF assms] skipLineFeed_cursor [OF assms] by simp
  have ea: "advance T a = readCodePoint T qa" and eb: "advance T b = readCodePoint T qb"
    by (simp_all add: advance_unfold qa_def qb_def)
  obtain ra a' where ra: "readCodePoint T qa = (ra, a')"
    by (cases "readCodePoint T qa")
  obtain rb b' where rb: "readCodePoint T qb = (rb, b')"
    by (cases "readCodePoint T qb")
  from readCodePoint_cursor [OF q ra rb] show ?thesis
    unfolding ea eb ra rb by simp
qed

lemma advances_cursor:
  "cursor a = cursor b \<Longrightarrow> fst (advances T n a) = fst (advances T n b)"
proof (induction n arbitrary: a b)
  case 0
  show ?case by simp
next
  case (Suc n)
  from advance_cursor [OF Suc.prems, of T]
  have r: "fst (advance T a) = fst (advance T b)"
    and c: "cursor (snd (advance T a)) = cursor (snd (advance T b))"
    by simp_all
  from Suc.IH [OF c] r cursor_observation [OF c] show ?case
    by (simp add: case_prod_unfold)
qed

subsection \<open>Lines between line breaks\<close>

lemma noLineBreakPending_no_skip: "noLineBreakPending p \<Longrightarrow> \<not> skipsLineFeed p"
  by (auto simp: noLineBreakPending_def skipsLineFeed_def dest!: charCodeAt_Some)

lemma readCodePoint_settles:
  assumes "readCodePoint T q = (r, p')" and "r \<noteq> Some LINE_FEED"
  shows "noLineBreakPending p'"
  using assms
  by (cases rule: readCodePoint_cases) (auto simp: noLineBreakPending_def)

lemma advance_settles:
  assumes "advance T p = (r, p')" and "r \<noteq> Some LINE_FEED"
  shows "noLineBreakPending p'"
  using assms readCodePoint_settles [of T p r p'] readCodePoint_settles [of T "skipLineFeed p" r p']
  by (auto simp: advance_unfold split: if_splits)

lemma advance_same_line:
  assumes "advance T p = (r, p')" and "noLineBreakPending p"
  shows "line p' = line p \<and> lineStartPos p' = lineStartPos p"
proof -
  from assms have "readCodePoint T p = (r, p')"
    by (simp add: advance_unfold noLineBreakPending_no_skip)
  from readCodePoint_gaps [OF this] assms(2) show ?thesis
    by (simp add: noLineBreakPending_def)
qed

lemma advances_same_line:
  assumes "advances T n p = (obs, p')" and "noLineBreakPending p"
    and "\<forall>i. i + 1 < n \<longrightarrow> fst (obs ! i) \<noteq> Some LINE_FEED"
  shows "line p' = line p \<and> lineStartPos p' = lineStartPos p"
  using assms
proof (induction n arbitrary: p obs)
  case 0
  then show ?case by simp
next
  case (Suc n)
  from Suc.prems(1) obtain r p1 obs1 where
    step: "advance T p = (r, p1)" and rest: "advances T n p1 = (obs1, p')"
    and obs: "obs = (r, line p1, col p1, offset p1) # obs1"
    unfolding advances_Suc by blast
  note same = advance_same_line [OF step Suc.prems(2)]
  show ?case
  proof (cases n)
    case 0
    with rest same show ?thesis by simp
  next
    case (Suc m)
    with Suc.prems(3) obs have "r \<noteq> Some LINE_FEED"
      by (auto dest: spec [of _ 0])
    then have settled: "noLineBreakPending p1"
      by (rule advance_settles [OF step])
    have "\<forall>i. i + 1 < n \<longrightarrow> fst (obs1 ! i) \<noteq> Some LINE_FEED"
    proof (intro allI impI)
      fix i assume "i + 1 < n"
      with Suc.prems(3) have "fst (obs ! (Suc i)) \<noteq> Some LINE_FEED"
        by (auto dest: spec [of _ "Suc i"])
      with obs show "fst (obs1 ! i) \<noteq> Some LINE_FEED" by simp
    qed
    from Suc.IH [OF rest settled this] same show ?thesis
      by simp
  qed
qed

subsection \<open>At the end of the buffer\<close>

lemma advance_at_end:
  assumes "int (length (html p)) \<le> pos p + 1" and "advance T p = (r, p')"
  shows "skipNextNewLine p' = skipNextNewLine p \<and> html p' = html p \<and> pos p' = pos p + 1"
proof -
  from assms(1) have "\<not> skipsLineFeed p"
    by (auto simp: skipsLineFeed_def dest!: charCodeAt_Some)
  with assms(2) have "readCodePoint T p = (r, p')"
    by (simp add: advance_unfold)
  then show ?thesis
    by (cases rule: readCodePoint_cases) (use assms(1) in \<open>auto dest!: charCodeAt_Some\<close>)
qed

lemma advances_at_end:
  assumes "int (length (html p)) \<le> pos p + 1" and "advances T n p = (obs, p')"
  shows "skipNextNewLine p' = skipNextNewLine p"
  using assms
proof (induction n arbitrary: p obs)
  case 0
  then show ?case by simp
next
  case (Suc n)
  from Suc.prems(2) obtain r p1 obs1 where
    step: "advance T p = (r, p1)" and rest: "advances T n p1 = (obs1, p')"
    unfolding advances_Suc by blast
  from advance_at_end [OF Suc.prems(1) step]
  have p1: "skipNextNewLine p1 = skipNextNewLine p" "html p1 = html p" "pos p1 = pos p + 1"
    by simp_all
  with Suc.prems(1) have "int (length (html p1)) \<le> pos p1 + 1"
    by simp
  from Suc.IH [OF this rest] p1 show ?case
    by simp
qed

lemma at_end_after_EOF:
  assumes "advance T p = (Some EOF, p')"
  shows "int (length (html p')) \<le> pos p' + 1"
proof -
  have "int (length (html q)) \<le> pos p' + 1 \<and> html p' = html q"
    if "readCodePoint T q = (Some EOF, p')" for q
    using readCodePoint_EOF [OF that] readCodePoint_gaps [OF that] by auto
  from this [of p] this [of "skipLineFeed p"] assms show ?thesis
    by (auto simp: advance_unfold split: if_splits)
qed

lemma advances_frame:
  assumes "advances T n p = (obs, p')"
  shows "html p' = html p \<and> lastChunkWritten p' = lastChunkWritten p \<and>
         droppedBufferSize p' = droppedBufferSize p"
  using assms
proof (induction n arbitrary: p obs)
  case 0
  then show ?case by simp
next
  case (Suc n)
  from Suc.prems obtain r p1 obs1 where
    step: "advance T p = (r, p1)" and rest: "advances T n p1 = (obs1, p')"
    unfolding advances_Suc by blast
  from advance_frame [OF step] Suc.IH [OF rest] show ?case
    by simp
qed

lemma gapsBehind_advances:
  assumes "advances T n p = (obs, p')" and "gapsBehind p"
  shows "gapsBehind p'"
  using assms
proof (induction n arbitrary: p obs)
  case 0
  then show ?case by simp
next
  case (Suc n)
  from Suc.prems(1) obtain r p1 obs1 where
    step: "advance T p = (r, p1)" and rest: "advances T n p1 = (obs1, p')"
    unfolding advances_Suc by blast
  from Suc.IH [OF rest gapsBehind_advance [OF step Suc.prems(2)]] show ?case .
qed

subsection \<open>Reading again after a retreat\<close>

lemma readCodePoint_replay:
  assumes q: "readCodePoint T q = (r, a1)" and noskip: "\<not> skipsLineFeed q"
    and b: "html b = html q" "pos b = pos q" "lastGapPos b = lastGapPos q"
      "gapStack b = gapStack q" "lastChunkWritten b = lastChunkWritten q"
      "droppedBufferSize b = droppedBufferSize q" "\<not> isEol b"
      "line b = line a1" "lineStartPos b = lineStartPos a1"
    and skip: "skipNextNewLine b = skipNextNewLine a1 \<or> (r \<noteq> Some LINE_FEED \<and> r \<noteq> Some EOF)"
  shows "fst (advance T b) = r \<and> cursor (snd (advance T b)) = cursor a1"
proof -
  have nb: "\<not> skipsLineFeed b"
  proof
    assume sb: "skipsLineFeed b"
    with b noskip have lf: "charCodeAt (html q) (pos q + 1) = Some LINE_FEED"
      and nq: "\<not> skipNextNewLine q" and skb: "skipNextNewLine b"
      by (auto simp: skipsLineFeed_def)
    from q lf have "r = Some LINE_FEED \<and> \<not> skipNextNewLine a1"
      by (cases rule: readCodePoint_cases) (auto dest!: charCodeAt_Some)
    with skip skb show False by simp
  qed
  obtain rb b1 where rb: "readCodePoint T b = (rb, b1)"
    by (cases "readCodePoint T b")
  from nb have eb: "advance T b = readCodePoint T b"
    by (simp add: advance_unfold)
  have "rb = r \<and> cursor b1 = cursor a1"
    using q
  proof (cases rule: readCodePoint_cases)
    case Eof
    from rb show ?thesis
      by (cases rule: readCodePoint_cases)
         (use Eof b skip in \<open>auto simp: cursor_def dest!: charCodeAt_Some\<close>)
  next
    case NaN
    from rb show ?thesis
      by (cases rule: readCodePoint_cases)
         (use NaN b skip in \<open>auto simp: cursor_def dest!: charCodeAt_Some\<close>)
  next
    case CR
    from rb show ?thesis
      by (cases rule: readCodePoint_cases)
         (use CR b skip in \<open>auto simp: cursor_def dest!: charCodeAt_Some\<close>)
  next
    case (Pair cp nextCp)
    from rb show ?thesis
      by (cases rule: readCodePoint_cases)
         (use Pair b skip in \<open>auto simp: cursor_def dest!: charCodeAt_Some\<close>)
  next
    case (Chunk cp)
    from rb show ?thesis
      by (cases rule: readCodePoint_cases)
         (use Chunk b skip in \<open>auto simp: cursor_def dest!: charCodeAt_Some\<close>)
  next
    case (Isolated cp)
    from rb show ?thesis
      by (cases rule: readCodePoint_cases)
         (use Isolated b skip in \<open>auto simp: cursor_def dest!: charCodeAt_Some\<close>)
  next
    case (Plain cp)
    from rb show ?thesis
      by (cases rule: readCodePoint_cases)
         (use Plain b skip in \<open>auto simp: cursor_def dest!: charCodeAt_Some\<close>)
  qed
  with eb rb show ?thesis by simp
qed

lemma retreat_fields:
  assumes "unwind (pos p - k) (lastGapPos p) (gapStack p) = (x, g, st)"
  shows "pos (retreat k p) = x" "lastGapPos (retreat k p) = g" "gapStack (retreat k p) = st"
    "\<not> isEol (retreat k p)" "html (retreat k p) = html p"
    "lastChunkWritten (retreat k p) = lastChunkWritten p"
    "droppedBufferSize (retreat k p) = droppedBufferSize p"
    "line (retreat k p) = line p" "lineStartPos (retreat k p) = lineStartPos p"
    "skipNextNewLine (retreat k p) = skipNextNewLine p"
  using assms by (simp_all add: retreat_def)

lemma retreat_replay:
  assumes run: "advances T k p = (obs, p')" and behind: "gapsBehind p"
    and nolf: "\<forall>i. i + 1 < k \<longrightarrow> fst (obs ! i) \<noteq> Some LINE_FEED"
  shows "fst (advances T k (retreat (int k) p')) = obs"
proof (cases k)
  case 0
  with run show ?thesis by simp
next
  case (Suc n)
  from run obtain r a1 obs1 where
    step: "advance T p = (r, a1)" and rest: "advances T n a1 = (obs1, p')"
    and obs: "obs = (r, line a1, col a1, offset a1) # obs1"
    unfolding Suc advances_Suc by blast
  define q where "q = (if skipsLineFeed p then skipLineFeed p else p)"
  have noskip: "\<not> skipsLineFeed q"
    by (simp add: q_def skipLineFeed_no_skip)
  from step have read: "readCodePoint T q = (r, a1)"
    by (auto simp: advance_unfold q_def split: if_splits)
  have land: "landing p = (pos q, lastGapPos q, gapStack q)"
    by (simp add: landing_def q_def)
  let ?b = "retreat (int k) p'"
  from advances_unwind [OF run [unfolded Suc] behind] land
  have "unwind (pos p' - int k) (lastGapPos p') (gapStack p') = (pos q, lastGapPos q, gapStack q)"
    by (simp add: Suc)
  note b = retreat_fields [OF this]
  note fr = advances_frame [OF run]
  have qf: "html q = html p" "lastChunkWritten q = lastChunkWritten p"
    "droppedBufferSize q = droppedBufferSize p"
    by (simp_all add: q_def)
  have lines: "line p' = line a1 \<and> lineStartPos p' = lineStartPos a1"
  proof (cases n)
    case 0
    with rest show ?thesis by simp
  next
    case (Suc m)
    with nolf obs \<open>k = Suc n\<close> have "r \<noteq> Some LINE_FEED"
      by (auto dest: spec [of _ 0])
    then have settled: "noLineBreakPending a1"
      by (rule advance_settles [OF step])
    have "\<forall>i. i + 1 < n \<longrightarrow> fst (obs1 ! i) \<noteq> Some LINE_FEED"
    proof (intro allI impI)
      fix i assume "i + 1 < n"
      with nolf \<open>k = Suc n\<close> have "fst (obs ! (Suc i)) \<noteq> Some LINE_FEED"
        by (auto dest: spec [of _ "Suc i"])
      with obs show "fst (obs1 ! i) \<noteq> Some LINE_FEED" by simp
    qed
    from advances_same_line [OF rest settled this] show ?thesis .
  qed
  have skip: "skipNextNewLine p' = skipNextNewLine a1 \<or>
              (r \<noteq> Some LINE_FEED \<and> r \<noteq> Some EOF)"
  proof (cases n)
    case 0
    with rest show ?thesis by simp
  next
    case (Suc m)
    with nolf obs \<open>k = Suc n\<close> have nl: "r \<noteq> Some LINE_FEED"
      by (auto dest: spec [of _ 0])
    show ?thesis
    proof (cases "r = Some EOF")
      case True
      with step have "int (length (html a1)) \<le> pos a1 + 1"
        by (simp add: at_end_after_EOF)
      from advances_at_end [OF this rest] show ?thesis by simp
    next
      case False
      with nl show ?thesis by simp
    qed
  qed
  have replay: "fst (advance T ?b) = r \<and> cursor (snd (advance T ?b)) = cursor a1"
    by (rule readCodePoint_replay [OF read noskip])
       (use b fr qf lines skip in simp_all)
  then have c: "cursor (snd (advance T ?b)) = cursor a1" and r: "fst (advance T ?b) = r"
    by simp_all
  from advances_cursor [OF c, of T n] rest
  have "fst (advances T n (snd (advance T ?b))) = obs1"
    by simp
  with r cursor_observation [OF c] obs show ?thesis
    by (simp add: Suc case_prod_unfold)
qed

lemma gapsBehind_written: "gapsBehind (write_chunk chunk isLast (Preprocessor h))"
  by (simp add: gapsBehind_def write_chunk_def Preprocessor_def)

text \<open>
  C2, as the code has it. An input is written in full and \<open>m + k\<close> code points are read;
  \<open>seen\<close> are the observations of the first \<open>m\<close> calls of \<open>advance\<close> and \<open>obs\<close> those of the
  last \<open>k\<close>, each one the code point returned with \<open>line\<close>, \<open>col\<close> and \<open>offset\<close> after the
  call. If none of the first \<open>k - 1\<close> of the last \<open>k\<close> code points is a line feed, then
  \<open>retreat(k)\<close> followed by \<open>k\<close> calls of \<open>advance\<close> gives the observations \<open>obs\<close> again.
  (\<open>retreat\<close> restores \<open>pos\<close> and the gaps; \<open>line\<close> and \<open>lineStartPos\<close> stay as they are,
  so a line break that is read again counts twice.)
\<close>

theorem retreat_round_trip:
  assumes "advances T m (write_chunk input True (Preprocessor h)) = (seen, p)"
    and "advances T k p = (obs, p')"
    and "\<forall>i. i + 1 < k \<longrightarrow> fst (obs ! i) \<noteq> Some LINE_FEED"
  shows "fst (advances T k (retreat (int k) p')) = obs"
  using assms(2) gapsBehind_advances [OF assms(1) gapsBehind_written] assms(3)
  by (rule retreat_replay)

theorem retreat_round_trip_witness:
  "fst (advances standard_tables 2
          (snd (advances standard_tables 2
                  (write_chunk [0x61, 0x0D, 0x0A, 0xD83D, 0xDE00, 0x62] True
                     (Preprocessor Callback))))) =
     [(Some 0x1F600, 2, 1, 4), (Some 0x62, 2, 3, 5)] \<and>
   fst (advances standard_tables 2
          (retreat 2
             (snd (advances standard_tables 2
                     (snd (advances standard_tables 2
                             (write_chunk [0x61, 0x0D, 0x0A, 0xD83D, 0xDE00, 0x62] True
                                (Preprocessor Callback)))))))) =
     [(Some 0x1F600, 2, 1, 4), (Some 0x62, 2, 3, 5)]"
proof -
  let ?w = "write_chunk [0x61, 0x0D, 0x0A, 0xD83D, 0xDE00, 0x62] True (Preprocessor Callback)"
  let ?p = "snd (advances standard_tables 2 ?w)"
  let ?obs = "[(Some 0x1F600, 2, 1, 4), (Some 0x62, 2, 3, 5)] :: observation list"
  have obs: "fst (advances standard_tables 2 ?p) = ?obs"
    by code_simp
  have first: "advances standard_tables 2 ?w = (fst (advances standard_tables 2 ?w), ?p)"
    by simp
  have last: "advances standard_tables 2 ?p = (?obs, snd (advances standard_tables 2 ?p))"
    using obs by (simp add: prod_eq_iff)
  have nolf: "\<forall>i. i + 1 < (2::nat) \<longrightarrow> fst (?obs ! i) \<noteq> Some LINE_FEED"
    by (simp add: LINE_FEED_def less_Suc_eq numeral_2_eq_2)
  from retreat_round_trip [OF first last nolf] obs show ?thesis
    by simp
qed

text \<open>
  A line feed and \<open>b\<close> are read and \<open>retreat(2)\<close> is called: read again, the line feed is
  at line 2, column 0 instead of line 1, column 1, and \<open>b\<close> at line 3 instead of line 2.
  With a line feed and a carriage return, the second pass returns a line feed and \<open>EOF\<close>
  where the first returned two line feeds: \<open>skipNextNewLine\<close> is still set from the
  carriage return, so the line feed is stepped over.
\<close>

theorem retreat_round_trip_counterexample:
  "fst (advances standard_tables 2 (write_chunk [0x0A, 0x62] True (Preprocessor Callback))) =
     [(Some 0x0A, 1, 1, 0), (Some 0x62, 2, 1, 1)] \<and>
   fst (advances standard_tables 2
          (retreat 2
             (snd (advances standard_tables 2
                     (write_chunk [0x0A, 0x62] True (Preprocessor Callback)))))) =
     [(Some 0x0A, 2, 0, 0), (Some 0x62, 3, 1, 1)] \<and>
   map fst (fst (advances standard_tables 2
                   (write_chunk [0x0A, 0x0D] True (Preprocessor Callback)))) =
     [Some 0x0A, Some 0x0A] \<and>
   map fst (fst (advances standard_tables 2
          (retreat 2
             (snd (advances standard_tables 2
                     (write_chunk [0x0A, 0x0D] True (Preprocessor Callback))))))) =
     [Some 0x0A, Some EOF]"
  by code_simp

subsection \<open>The code unit that is read\<close>

lemma advance_reads:
  obtains q where "advance T p = readCodePoint T q" "pos q + 1 = readPosition p"
    "html q = html p" "lastChunkWritten q = lastChunkWritten p"
    "droppedBufferSize q = droppedBufferSize p" "handler q = handler p"
    "lastErrOffset q = lastErrOffset p" "reported q = reported p"
    "skipNextNewLine q = (skipNextNewLine p \<and> \<not> skipsLineFeed p)"
    "lastGapPos q # gapStack q =
       (if skipsLineFeed p then Some (pos p + 1) # lastGapPos p # gapStack p
        else lastGapPos p # gapStack p)"
    "\<not> skipsLineFeed q"
proof (cases "skipsLineFeed p")
  case True
  with that [of "skipLineFeed p"] show ?thesis
    by (simp add: advance_unfold readPosition_def skipLineFeed_no_skip)
next
  case False
  with that [of p] show ?thesis
    by (simp add: advance_unfold readPosition_def)
qed

lemma readPosition_inside:
  "skipsLineFeed p \<Longrightarrow> 0 \<le> pos p + 1 \<and> pos p + 1 < int (length (html p))"
  by (auto simp: skipsLineFeed_def dest!: charCodeAt_Some)

lemma readCodePoint_EOF_iff:
  assumes "readCodePoint T q = (r, p')"
  shows "(r = Some EOF \<longleftrightarrow>
            int (length (html q)) \<le> pos q + 1 \<or>
            (\<not> lastChunkWritten q \<and> pos q + 1 = int (length (html q)) - 1 \<and>
             (\<exists>cp. charCodeAt (html q) (pos q + 1) = Some cp \<and> isSurrogate cp))) \<and>
         (r = Some EOF \<longrightarrow>
            endOfChunkHit p' = (\<not> lastChunkWritten q) \<and> pos p' = pos q + 1)"
  using assms
proof (cases rule: readCodePoint_cases)
  case (Pair cp nextCp)
  then show ?thesis
    using pair_not_EOF [of cp nextCp] by (auto dest!: charCodeAt_Some)
next
  case (Isolated cp)
  then show ?thesis
    using charCodeAt_not_EOF [of "html q" "pos q + 1"] by (auto dest!: charCodeAt_Some)
next
  case (Plain cp)
  then show ?thesis
    using charCodeAt_not_EOF [of "html q" "pos q + 1"] by (auto dest!: charCodeAt_Some)
next
  case (Chunk cp)
  then show ?thesis by auto
qed (auto dest!: charCodeAt_Some)

subsection \<open>End of input and end of chunk, on every path\<close>

text \<open>
  C7, as the code has it. The position that \<open>advance\<close> reads, \<open>readPosition\<close>, is the
  incremented \<open>pos\<close>, incremented once more when the line feed of a CR LF is stepped over.
  \<open>advance\<close> returns \<open>EOF\<close> exactly in two cases: when that position is at or beyond
  \<open>html.length\<close>, or when it is the last position of the buffer, holds a surrogate, and
  \<open>lastChunkWritten\<close> is false. In both cases \<open>endOfChunkHit\<close> is set to the negation of
  \<open>lastChunkWritten\<close> (to true in the second) and \<open>pos\<close> is left on the position read. So
  \<open>EOF\<close> with \<open>endOfChunkHit\<close> set is the end of a chunk and \<open>EOF\<close> with \<open>endOfChunkHit\<close>
  clear is the end of the input. In terms of \<open>pos\<close> after the call: whenever it is at or
  beyond \<open>html.length\<close>, \<open>EOF\<close> was returned, and \<open>EOF\<close> is returned with \<open>pos\<close> inside the
  buffer only in the second case.
\<close>

theorem advance_EOF:
  "(fst (advance T p) = Some EOF \<longleftrightarrow>
      int (length (html p)) \<le> readPosition p \<or>
      (\<not> lastChunkWritten p \<and> readPosition p = int (length (html p)) - 1 \<and>
       (\<exists>cp. charCodeAt (html p) (readPosition p) = Some cp \<and> isSurrogate cp))) \<and>
   (fst (advance T p) = Some EOF \<longrightarrow>
      endOfChunkHit (snd (advance T p)) = (\<not> lastChunkWritten p) \<and>
      pos (snd (advance T p)) = readPosition p) \<and>
   (int (length (html p)) \<le> pos (snd (advance T p)) \<longrightarrow>
      fst (advance T p) = Some EOF \<and>
      endOfChunkHit (snd (advance T p)) = (\<not> lastChunkWritten p)) \<and>
   (fst (advance T p) = Some EOF \<longrightarrow>
      endOfChunkHit (snd (advance T p)) = (\<not> lastChunkWritten p) \<and>
      (int (length (html p)) \<le> pos (snd (advance T p)) \<or>
       \<not> lastChunkWritten p \<and> pos (snd (advance T p)) = int (length (html p)) - 1 \<and>
       (\<exists>cp. charCodeAt (html p) (pos (snd (advance T p))) = Some cp \<and> isSurrogate cp)))"
proof -
  obtain q where q: "advance T p = readCodePoint T q" "pos q + 1 = readPosition p"
    "html q = html p" "lastChunkWritten q = lastChunkWritten p"
    by (rule advance_reads)
  obtain r p' where r: "readCodePoint T q = (r, p')"
    by (cases "readCodePoint T q")
  from q r have a: "fst (advance T p) = r" "snd (advance T p) = p'"
    by simp_all
  note f = readCodePoint_EOF_iff [OF r, unfolded q(2,3,4)]
    readCodePoint_EOF [OF r, unfolded q(3,4)]
  from f(1) have c1: "(r = Some EOF \<longleftrightarrow>
      int (length (html p)) \<le> readPosition p \<or>
      (\<not> lastChunkWritten p \<and> readPosition p = int (length (html p)) - 1 \<and>
       (\<exists>cp. charCodeAt (html p) (readPosition p) = Some cp \<and> isSurrogate cp)))"
    by (rule conjunct1)
  from f(1) q(2) have c2: "r = Some EOF \<longrightarrow>
      endOfChunkHit p' = (\<not> lastChunkWritten p) \<and> pos p' = readPosition p"
    by simp
  from f(2) have c3: "int (length (html p)) \<le> pos p' \<longrightarrow>
      r = Some EOF \<and> endOfChunkHit p' = (\<not> lastChunkWritten p)"
    by (rule conjunct1)
  from f(2) have c4: "r = Some EOF \<longrightarrow>
      endOfChunkHit p' = (\<not> lastChunkWritten p) \<and>
      (int (length (html p)) \<le> pos p' \<or>
       \<not> lastChunkWritten p \<and> pos p' = int (length (html p)) - 1 \<and>
       (\<exists>cp. charCodeAt (html p) (pos p') = Some cp \<and> isSurrogate cp))"
    by (rule conjunct2)
  show ?thesis
    unfolding a by (intro conjI c1 c2 c3 c4)
qed

theorem advance_EOF_witness:
  "int (length (html (run standard_tables [Write [0x61] False, Advance] (Preprocessor Callback)))) \<le>
     readPosition (run standard_tables [Write [0x61] False, Advance] (Preprocessor Callback)) \<and>
   fst (advance standard_tables
          (run standard_tables [Write [0x61] False, Advance] (Preprocessor Callback))) = Some EOF \<and>
   endOfChunkHit (snd (advance standard_tables
          (run standard_tables [Write [0x61] False, Advance] (Preprocessor Callback)))) \<and>
   charCodeAt
     (html (run standard_tables [Write [0x0D, 0x0A, 0xD83D] False, Advance] (Preprocessor Callback)))
     (readPosition
        (run standard_tables [Write [0x0D, 0x0A, 0xD83D] False, Advance] (Preprocessor Callback))) =
     Some 0xD83D \<and>
   readPosition
     (run standard_tables [Write [0x0D, 0x0A, 0xD83D] False, Advance] (Preprocessor Callback)) = 2 \<and>
   fst (advance standard_tables
          (run standard_tables [Write [0x0D, 0x0A, 0xD83D] False, Advance]
             (Preprocessor Callback))) = Some EOF \<and>
   endOfChunkHit (snd (advance standard_tables
          (run standard_tables [Write [0x0D, 0x0A, 0xD83D] False, Advance]
             (Preprocessor Callback)))) \<and>
   pos (snd (advance standard_tables
          (run standard_tables [Write [0x0D, 0x0A, 0xD83D] False, Advance]
             (Preprocessor Callback)))) = 2 \<and>
   fst (advance standard_tables
          (run standard_tables [Write [0x61, 0x62] True, Advance] (Preprocessor Callback))) \<noteq>
     Some EOF"
proof -
  let ?p = "run standard_tables [Write [0x61] False, Advance] (Preprocessor Callback)"
  let ?q = "run standard_tables [Write [0x0D, 0x0A, 0xD83D] False, Advance]
              (Preprocessor Callback)"
  let ?s = "run standard_tables [Write [0x61, 0x62] True, Advance] (Preprocessor Callback)"
  have p: "int (length (html ?p)) \<le> readPosition ?p" "\<not> lastChunkWritten ?p"
    by code_simp+
  have q: "charCodeAt (html ?q) (readPosition ?q) = Some 0xD83D" "readPosition ?q = 2"
    "int (length (html ?q)) = 3" "\<not> lastChunkWritten ?q" "isSurrogate 0xD83D"
    by code_simp+
  have s: "readPosition ?s = 1" "int (length (html ?s)) = 2" "lastChunkWritten ?s"
    by code_simp+
  note tp = advance_EOF [of standard_tables ?p]
  from tp [THEN conjunct1] p(1) have ep: "fst (advance standard_tables ?p) = Some EOF"
    by blast
  from tp [THEN conjunct2, THEN conjunct1] ep p(2)
  have hp: "endOfChunkHit (snd (advance standard_tables ?p))"
    by blast
  note tq = advance_EOF [of standard_tables ?q]
  from q have "\<not> lastChunkWritten ?q \<and> readPosition ?q = int (length (html ?q)) - 1 \<and>
       (\<exists>cp. charCodeAt (html ?q) (readPosition ?q) = Some cp \<and> isSurrogate cp)"
    by simp
  with tq [THEN conjunct1] have eq: "fst (advance standard_tables ?q) = Some EOF"
    by blast
  from tq [THEN conjunct2, THEN conjunct1] eq q(2,4)
  have hq: "endOfChunkHit (snd (advance standard_tables ?q))"
    "pos (snd (advance standard_tables ?q)) = 2"
    by simp_all
  from s have "\<not> (int (length (html ?s)) \<le> readPosition ?s \<or>
      (\<not> lastChunkWritten ?s \<and> readPosition ?s = int (length (html ?s)) - 1 \<and>
       (\<exists>cp. charCodeAt (html ?s) (readPosition ?s) = Some cp \<and> isSurrogate cp)))"
    by simp
  with advance_EOF [of standard_tables ?s, THEN conjunct1]
  have es: "fst (advance standard_tables ?s) \<noteq> Some EOF"
    by blast
  from p(1) ep hp q(1,2) eq hq es show ?thesis
    by (intro conjI)
qed

text \<open>
  A chunk that ends in a high surrogate, with more chunks to come: \<open>advance\<close> returns
  \<open>EOF\<close> although the incremented \<open>pos\<close>, 0, is below \<open>html.length\<close>, 1.
\<close>

theorem advance_EOF_counterexample:
  "fst (advance standard_tables (write_chunk [0xD83D] False (Preprocessor Callback))) = Some EOF \<and>
   pos (snd (advance standard_tables (write_chunk [0xD83D] False (Preprocessor Callback)))) = 0 \<and>
   int (length (html (snd (advance standard_tables (write_chunk [0xD83D] False (Preprocessor Callback)))))) = 1"
  by code_simp

subsection \<open>What is read at the position read\<close>

lemma advance_reads_CR:
  assumes "charCodeAt (html p) (readPosition p) = Some CARRIAGE_RETURN"
  shows "fst (advance T p) = Some LINE_FEED \<and> skipNextNewLine (snd (advance T p)) \<and>
         pos (snd (advance T p)) = readPosition p \<and>
         lastGapPos (snd (advance T p)) # gapStack (snd (advance T p)) =
           (if skipsLineFeed p then Some (pos p + 1) # lastGapPos p # gapStack p
            else lastGapPos p # gapStack p)"
proof -
  obtain q where q: "advance T p = readCodePoint T q" "pos q + 1 = readPosition p"
    "html q = html p"
    "lastGapPos q # gapStack q =
       (if skipsLineFeed p then Some (pos p + 1) # lastGapPos p # gapStack p
        else lastGapPos p # gapStack p)"
    by (rule advance_reads)
  obtain r p' where r: "readCodePoint T q = (r, p')"
    by (cases "readCodePoint T q")
  from r have "r = Some LINE_FEED \<and> skipNextNewLine p' \<and> pos p' = pos q + 1 \<and>
      lastGapPos p' = lastGapPos q \<and> gapStack p' = gapStack q"
    by (cases rule: readCodePoint_cases)
       (use assms q(2,3) in \<open>auto dest!: charCodeAt_Some\<close>)
  with q r show ?thesis by simp
qed

lemma advance_reads_plain:
  assumes "charCodeAt (html p) (readPosition p) = Some cp"
    and "cp \<noteq> CARRIAGE_RETURN" and "\<not> isSurrogate cp"
  shows "fst (advance T p) = Some cp \<and> pos (snd (advance T p)) = readPosition p \<and>
         \<not> skipNextNewLine (snd (advance T p)) \<and>
         lastGapPos (snd (advance T p)) # gapStack (snd (advance T p)) =
           (if skipsLineFeed p then Some (pos p + 1) # lastGapPos p # gapStack p
            else lastGapPos p # gapStack p)"
proof -
  obtain q where q: "advance T p = readCodePoint T q" "pos q + 1 = readPosition p"
    "html q = html p"
    "lastGapPos q # gapStack q =
       (if skipsLineFeed p then Some (pos p + 1) # lastGapPos p # gapStack p
        else lastGapPos p # gapStack p)"
    by (rule advance_reads)
  obtain r p' where r: "readCodePoint T q = (r, p')"
    by (cases "readCodePoint T q")
  from r have "r = Some cp \<and> pos p' = pos q + 1 \<and> \<not> skipNextNewLine p' \<and>
      lastGapPos p' = lastGapPos q \<and> gapStack p' = gapStack q"
    by (cases rule: readCodePoint_cases)
       (use assms q(2,3) in \<open>auto dest!: charCodeAt_Some\<close>)
  with q r show ?thesis by simp
qed

lemma advance_flag:
  "skipNextNewLine (snd (advance T p)) \<longleftrightarrow>
     charCodeAt (html p) (readPosition p) = Some CARRIAGE_RETURN \<or>
     (int (length (html p)) \<le> pos p + 1 \<and> skipNextNewLine p)"
proof -
  obtain q where q: "advance T p = readCodePoint T q" "pos q + 1 = readPosition p"
    "html q = html p" "skipNextNewLine q = (skipNextNewLine p \<and> \<not> skipsLineFeed p)"
    by (rule advance_reads)
  obtain r p' where r: "readCodePoint T q = (r, p')"
    by (cases "readCodePoint T q")
  from r have "skipNextNewLine p' \<longleftrightarrow>
     charCodeAt (html q) (pos q + 1) = Some CARRIAGE_RETURN \<or>
     (int (length (html q)) \<le> pos q + 1 \<and> skipNextNewLine q)"
    by (cases rule: readCodePoint_cases) (auto dest!: charCodeAt_Some)
  then have f: "skipNextNewLine p' \<longleftrightarrow>
     charCodeAt (html p) (readPosition p) = Some CARRIAGE_RETURN \<or>
     (int (length (html p)) \<le> readPosition p \<and> skipNextNewLine q)"
    unfolding q(2,3) .
  show ?thesis
  proof (cases "skipsLineFeed p")
    case True
    with readPosition_inside [OF True] q(4) f q(1) r show ?thesis
      by simp
  next
    case False
    then have "readPosition p = pos p + 1"
      by (simp add: readPosition_def)
    with False q(4) f q(1) r show ?thesis
      by simp
  qed
qed


subsection \<open>A first pass over the input\<close>



lemma offset_validate [simp]: "offset (validate T c p) = offset p"
  by (simp add: offset_def)

lemma offset_err [simp]: "offset (err c p) = offset p"
  by (simp add: offset_def)





subsection \<open>Surrogates, on every path\<close>



subsection \<open>The code points still to come\<close>

lemma charCodeAt_drop:
  assumes "0 \<le> i"
  shows "charCodeAt s i = (case drop (nat i) s of [] \<Rightarrow> None | w # ws \<Rightarrow> Some (uint w))"
proof (cases "drop (nat i) s")
  case Nil
  with assms show ?thesis
    by (simp add: charCodeAt_def)
next
  case (Cons w ws)
  then have "nat i < length s"
    by (cases "nat i < length s") simp_all
  moreover from this Cons have "s ! nat i = w"
    using hd_drop_conv_nth [of "nat i" s] by simp
  ultimately show ?thesis
    using assms Cons by (simp add: charCodeAt_def)
qed

lemma drop_next:
  assumes "0 \<le> i"
  shows "drop (nat (i + 1)) s = tl (drop (nat i) s)"
proof -
  from assms have "nat (i + 1) = Suc (nat i)"
    by simp
  then show ?thesis
    by (simp add: drop_Suc tl_drop)
qed

lemma take_replicate_Suc:
  "take n (xs @ replicate (Suc n) x) = take n (xs @ replicate n x)"
  by (simp only: take_append take_replicate) (simp add: min_def)

lemma advance_pending:
  assumes nosurr: "\<forall>w\<in>set (html p). \<not> isSurrogate (uint w)" and start: "- 1 \<le> pos p"
  shows "html (snd (advance T p)) = html p \<and> - 1 \<le> pos (snd (advance T p)) \<and>
         (pending p = [] \<longrightarrow>
            fst (advance T p) = Some EOF \<and> pending (snd (advance T p)) = []) \<and>
         (\<forall>c cs. pending p = c # cs \<longrightarrow>
            fst (advance T p) = Some c \<and> pending (snd (advance T p)) = cs)"
proof -
  define rp where "rp = readPosition p"
  define s where "s \<longleftrightarrow> skipNextNewLine p \<and> \<not> skipsLineFeed p"
  define rest where "rest = drop (nat rp) (html p)"
  let ?p' = "snd (advance T p)"
  have html: "html ?p' = html p"
    using advance_frame [of T p "fst (advance T p)" ?p'] by simp
  from start have rp0: "0 \<le> rp"
    by (simp add: rp_def readPosition_def)
  have pend: "pending p = normalizeNewlines s (map uint rest)"
  proof (cases "skipsLineFeed p")
    case True
    then have lf: "charCodeAt (html p) (pos p + 1) = Some LINE_FEED" and flag: "skipNextNewLine p"
      by (simp_all add: skipsLineFeed_def)
    from start have 0: "0 \<le> pos p + 1" by simp
    from lf obtain w ws where d: "drop (nat (pos p + 1)) (html p) = w # ws" "uint w = LINE_FEED"
      unfolding charCodeAt_drop [OF 0] by (auto split: list.splits)
    from True have "rp = pos p + 1 + 1"
      by (simp add: rp_def readPosition_def)
    with drop_next [OF 0, of "html p"] d have "rest = ws"
      by (simp add: rest_def)
    with d flag True show ?thesis
      by (simp add: pending_def s_def)
  next
    case False
    then show ?thesis
      by (simp add: pending_def s_def rest_def rp_def readPosition_def)
  qed
  have nolf: "\<not> (s \<and> charCodeAt (html p) rp = Some LINE_FEED)"
    by (auto simp: s_def rp_def readPosition_def skipsLineFeed_def)
  obtain q where q: "advance T p = readCodePoint T q" "pos q + 1 = readPosition p"
    "html q = html p" "lastChunkWritten q = lastChunkWritten p"
    by (rule advance_reads)
  obtain r p' where r: "readCodePoint T q = (r, p')"
    by (cases "readCodePoint T q")
  note eof = readCodePoint_EOF_iff [OF r, unfolded q(2,3,4), folded rp_def]
  have adv: "fst (advance T p) = r" "?p' = p'"
    using q(1) r by simp_all
  show ?thesis
  proof (cases rest)
    case Nil
    then have len: "int (length (html p)) \<le> rp"
      using rp0 by (simp add: rest_def)
    with eof have e: "r = Some EOF" "pos p' = rp"
      by simp_all
    from len e(2) have "drop (nat (pos p' + 1)) (html p) = []"
      by simp
    then have "pending p' = []"
      using html adv(2) by (simp add: pending_def)
    with e Nil pend adv html rp0 show ?thesis
      by simp
  next
    case (Cons w ws)
    then have cp: "charCodeAt (html p) (readPosition p) = Some (uint w)"
      using charCodeAt_drop [OF rp0, of "html p"] by (simp add: rest_def rp_def)
    from Cons have "w \<in> set (html p)"
      using in_set_dropD [of w "nat rp" "html p"] by (simp add: rest_def)
    with nosurr have ns: "\<not> isSurrogate (uint w)"
      by simp
    from Cons drop_next [OF rp0, of "html p"] have nxt: "drop (nat (rp + 1)) (html p) = ws"
      by (simp add: rest_def)
    show ?thesis
    proof (cases "uint w = CARRIAGE_RETURN")
      case True
      with cp advance_reads_CR [of p T]
      have c: "fst (advance T p) = Some LINE_FEED" "skipNextNewLine ?p'" "pos ?p' = rp"
        by (simp_all add: rp_def)
      from c(2,3) nxt html have "pending ?p' = normalizeNewlines True (map uint ws)"
        by (simp add: pending_def)
      with c True Cons pend html rp0 show ?thesis
        by simp
    next
      case False
      from advance_reads_plain [OF cp False ns, of T]
      have c: "fst (advance T p) = Some (uint w)" "\<not> skipNextNewLine ?p'" "pos ?p' = rp"
        by (simp_all add: rp_def)
      from c(2,3) nxt html have "pending ?p' = normalizeNewlines False (map uint ws)"
        by (simp add: pending_def)
      moreover from nolf cp have "\<not> (uint w = LINE_FEED \<and> s)"
        by (auto simp: rp_def)
      ultimately show ?thesis
        using c False Cons pend html rp0 by auto
    qed
  qed
qed

lemma advances_pending:
  assumes "\<forall>w\<in>set (html p). \<not> isSurrogate (uint w)" and "- 1 \<le> pos p"
  shows "map fst (fst (advances T n p)) =
           take n (map Some (pending p) @ replicate n (Some EOF))"
  using assms
proof (induction n arbitrary: p)
  case 0
  then show ?case by simp
next
  case (Suc n)
  let ?p' = "snd (advance T p)"
  note step = advance_pending [OF Suc.prems, of T]
  from step Suc.prems(1) have "\<forall>w\<in>set (html ?p'). \<not> isSurrogate (uint w)" "- 1 \<le> pos ?p'"
    by simp_all
  note ih = Suc.IH [OF this]
  have unf: "map fst (fst (advances T (Suc n) p)) =
      fst (advance T p) # map fst (fst (advances T n ?p'))"
    by (simp split: prod.splits)
  show ?case
  proof (cases "pending p")
    case Nil
    with step have "fst (advance T p) = Some EOF" "pending ?p' = []"
      by simp_all
    with unf ih Nil show ?thesis
      by simp
  next
    case (Cons c cs)
    with step have c: "fst (advance T p) = Some c" "pending ?p' = cs"
      by simp_all
    have "take (Suc n) (map Some (c # cs) @ replicate (Suc n) (Some EOF)) =
        Some c # take n (map Some cs @ replicate (Suc n) (Some EOF))"
      by (simp only: list.map append_Cons take_Suc_Cons)
    also have "\<dots> = Some c # take n (map Some cs @ replicate n (Some EOF))"
      by (simp only: take_replicate_Suc)
    finally show ?thesis
      unfolding unf ih c Cons by (rule sym)
  qed
qed

lemma pending_written:
  "pending (write_chunk input isLastChunk (Preprocessor h)) =
     normalizeNewlines False (map uint input)"
  by (simp add: pending_def write_chunk_def Preprocessor_def)

subsection \<open>A line break split over two chunks\<close>

lemma advance_at_end_EOF:
  assumes "int (length (html p)) \<le> pos p + 1"
  shows "fst (advance T p) = Some EOF \<and>
         endOfChunkHit (snd (advance T p)) = (\<not> lastChunkWritten p) \<and>
         pos (snd (advance T p)) = pos p + 1 \<and>
         html (snd (advance T p)) = html p \<and>
         skipNextNewLine (snd (advance T p)) = skipNextNewLine p \<and>
         lastGapPos (snd (advance T p)) = lastGapPos p \<and>
         gapStack (snd (advance T p)) = gapStack p"
proof -
  from assms have "\<not> skipsLineFeed p"
    by (auto simp: skipsLineFeed_def dest!: charCodeAt_Some)
  then have a: "advance T p = readCodePoint T p"
    by (simp add: advance_unfold)
  obtain r p' where r: "readCodePoint T p = (r, p')"
    by (cases "readCodePoint T p")
  from r have "r = Some EOF \<and> endOfChunkHit p' = (\<not> lastChunkWritten p) \<and> pos p' = pos p + 1 \<and>
      html p' = html p \<and> skipNextNewLine p' = skipNextNewLine p \<and>
      lastGapPos p' = lastGapPos p \<and> gapStack p' = gapStack p"
    by (cases rule: readCodePoint_cases) (use assms in \<open>auto dest!: charCodeAt_Some\<close>)
  with a r show ?thesis by simp
qed

lemma charCodeAt_append:
  "charCodeAt (s @ w # ws) (int (length s)) = Some (uint w)"
  "charCodeAt (s @ w # v # ws) (int (length s) + 1) = Some (uint v)"
proof -
  show "charCodeAt (s @ w # ws) (int (length s)) = Some (uint w)"
    by (simp add: charCodeAt_def)
  have "nat (int (length s) + 1) = Suc (length s)"
    by simp
  then show "charCodeAt (s @ w # v # ws) (int (length s) + 1) = Some (uint v)"
    by (simp add: charCodeAt_def nth_append)
qed

lemma line_break_across_chunks:
  assumes cr: "charCodeAt (html p) (readPosition p) = Some CARRIAGE_RETURN"
    and last: "readPosition p + 1 = int (length (html p))"
    and gaps: "gapsBehind p"
    and w: "uint w \<noteq> CARRIAGE_RETURN" "\<not> isSurrogate (uint w)"
  shows "fst (advance T p) = Some LINE_FEED \<and>
         fst (advance T (snd (advance T p))) = Some EOF \<and>
         endOfChunkHit (snd (advance T (snd (advance T p)))) = (\<not> lastChunkWritten p) \<and>
         fst (advance T (write_chunk (0x0A # w # rest) isLastChunk
                (retreat 1 (snd (advance T (snd (advance T p))))))) = Some (uint w) \<and>
         pos (snd (advance T (write_chunk (0x0A # w # rest) isLastChunk
                (retreat 1 (snd (advance T (snd (advance T p)))))))) = readPosition p + 2 \<and>
         lastGapPos (snd (advance T (write_chunk (0x0A # w # rest) isLastChunk
                (retreat 1 (snd (advance T (snd (advance T p)))))))) = Some (readPosition p + 1)"
proof -
  define p1 where "p1 = snd (advance T p)"
  define p2 where "p2 = snd (advance T p1)"
  define p3 where "p3 = retreat 1 p2"
  define p4 where "p4 = write_chunk (0x0A # w # rest) isLastChunk p3"
  from advance_reads_CR [OF cr, of T]
  have 1: "fst (advance T p) = Some LINE_FEED" "skipNextNewLine p1" "pos p1 = readPosition p"
    by (simp_all add: p1_def)
  have f1: "html p1 = html p" "lastChunkWritten p1 = lastChunkWritten p"
    using advance_frame [of T p "fst (advance T p)" p1] by (simp_all add: p1_def)
  have "gapsBehind p1"
    using gapsBehind_advance [of T p "fst (advance T p)" p1] gaps by (simp add: p1_def)
  then obtain g where g: "lastGapPos p1 = Some g" "g \<le> pos p1"
    by (auto simp: gapsBehind_def split: option.splits)
  from last 1(3) f1(1) have end1: "int (length (html p1)) \<le> pos p1 + 1"
    by simp
  from advance_at_end_EOF [OF end1, of T]
  have 2: "fst (advance T p1) = Some EOF" "endOfChunkHit p2 = (\<not> lastChunkWritten p1)"
    "pos p2 = pos p1 + 1" "html p2 = html p1" "skipNextNewLine p2 = skipNextNewLine p1"
    "lastGapPos p2 = lastGapPos p1" "gapStack p2 = gapStack p1"
    by (simp_all add: p2_def)
  from g 2(3,6) have "unwind (pos p2 - 1) (lastGapPos p2) (gapStack p2) =
      (pos p1, Some g, gapStack p2)"
    by (simp add: unwind_behind)
  from retreat_fields [OF this]
  have 3: "pos p3 = pos p1" "html p3 = html p2" "skipNextNewLine p3 = skipNextNewLine p2"
    by (simp_all add: p3_def)
  from cr have ne: "html p \<noteq> []"
    by (auto dest!: charCodeAt_Some)
  with 3 2 1 f1 have 4: "html p4 = html p @ 0x0A # w # rest" "pos p4 = readPosition p"
    "skipNextNewLine p4"
    by (simp_all add: p4_def write_chunk_def)
  from last 4(2) have pos4: "pos p4 + 1 = int (length (html p))"
    by simp
  have "uint (0x0A :: code_unit) = LINE_FEED"
    by (simp add: LINE_FEED_def)
  with charCodeAt_append(1) [of "html p" "0x0A" "w # rest"] 4(1,3) pos4
  have skip: "skipsLineFeed p4"
    by (simp add: skipsLineFeed_def)
  then have rp: "readPosition p4 = int (length (html p)) + 1"
    using pos4 by (simp add: readPosition_def)
  with charCodeAt_append(2) [of "html p" "0x0A" w rest] 4(1)
  have "charCodeAt (html p4) (readPosition p4) = Some (uint w)"
    by simp
  from advance_reads_plain [OF this w, of T] skip rp last pos4
  have 5: "fst (advance T p4) = Some (uint w)" "pos (snd (advance T p4)) = readPosition p + 2"
    "lastGapPos (snd (advance T p4)) = Some (readPosition p + 1)"
    by simp_all
  from 2(2) f1(2) have e: "endOfChunkHit p2 = (\<not> lastChunkWritten p)"
    by simp
  from 1(1) 2(1) e 5 show ?thesis
    unfolding p4_def p3_def p2_def p1_def by (intro conjI)
qed

subsection \<open>Line breaks, on every path\<close>

text \<open>
  C5, as the code has it. The position that \<open>advance\<close> reads, \<open>readPosition\<close>, is the
  incremented \<open>pos\<close>, or the one after it when \<open>skipNextNewLine\<close> is set and the code unit
  at the incremented \<open>pos\<close> is a line feed: that line feed is stepped over and its position
  recorded as a gap. \<open>advance\<close> never returns U+000D: a carriage return at the position read
  is returned as a line feed, and any other code unit there that is not a surrogate is
  returned as it is. \<open>skipNextNewLine\<close> is set after \<open>advance\<close> exactly when a carriage
  return was read, or when it was set before and the call was made at the end of the
  buffer; \<open>retreat\<close> and \<open>write\<close> leave it as it is. So a line feed is stepped over also when
  the chunk ended between it and its carriage return: after the carriage return is read as
  a line feed and the end of the chunk as \<open>EOF\<close>, \<open>retreat(1)\<close> and the \<open>write\<close> of a chunk
  \<open>LF w ...\<close> make the next \<open>advance\<close> return \<open>w\<close> (for \<open>w\<close> neither a carriage return nor
  a surrogate, in a state whose last gap is not ahead of the cursor). For an input
  without surrogates written in one chunk to a new preprocessor, the code points returned
  are those of the input with every CR LF and every other CR replaced by one LF
  (\<open>normalizeNewlines\<close>), followed by \<open>EOF\<close>. The input
  \<open>a CR LF b CR c LF d\<close> yields the code points \<open>a, LF, b, LF, c, LF, d\<close>, with \<open>b\<close>, \<open>c\<close> and
  \<open>d\<close> observed at lines 2, 3 and 4 and at column 1: the column of the first character of
  these lines is 1. The observations are (code point, line, col, offset).
\<close>

theorem advance_newlines:
  "fst (advance T p) \<noteq> Some CARRIAGE_RETURN \<and>
   readPosition p =
     (if skipNextNewLine p \<and> charCodeAt (html p) (pos p + 1) = Some LINE_FEED
      then pos p + 2 else pos p + 1) \<and>
   (charCodeAt (html p) (readPosition p) = Some CARRIAGE_RETURN \<longrightarrow>
      fst (advance T p) = Some LINE_FEED \<and> pos (snd (advance T p)) = readPosition p) \<and>
   (\<forall>cp. charCodeAt (html p) (readPosition p) = Some cp \<and> cp \<noteq> CARRIAGE_RETURN \<and>
         \<not> isSurrogate cp \<longrightarrow>
      fst (advance T p) = Some cp \<and> pos (snd (advance T p)) = readPosition p) \<and>
   (skipNextNewLine p \<and> charCodeAt (html p) (pos p + 1) = Some LINE_FEED \<longrightarrow>
      pos p + 2 \<le> pos (snd (advance T p)) \<and>
      Some (pos p + 1) \<in> set (lastGapPos (snd (advance T p)) # gapStack (snd (advance T p)))) \<and>
   (skipNextNewLine (snd (advance T p)) \<longleftrightarrow>
      charCodeAt (html p) (readPosition p) = Some CARRIAGE_RETURN \<or>
      (int (length (html p)) \<le> pos p + 1 \<and> skipNextNewLine p)) \<and>
   skipNextNewLine (retreat count p) = skipNextNewLine p \<and>
   skipNextNewLine (write_chunk chunk isLastChunk p) = skipNextNewLine p \<and>
   (charCodeAt (html p) (readPosition p) = Some CARRIAGE_RETURN \<and>
    readPosition p + 1 = int (length (html p)) \<and> gapsBehind p \<and>
    uint w \<noteq> CARRIAGE_RETURN \<and> \<not> isSurrogate (uint w) \<longrightarrow>
      fst (advance T p) = Some LINE_FEED \<and>
      fst (advance T (snd (advance T p))) = Some EOF \<and>
      endOfChunkHit (snd (advance T (snd (advance T p)))) = (\<not> lastChunkWritten p) \<and>
      fst (advance T (write_chunk (0x0A # w # rest) isLastChunk
             (retreat 1 (snd (advance T (snd (advance T p))))))) = Some (uint w) \<and>
      pos (snd (advance T (write_chunk (0x0A # w # rest) isLastChunk
             (retreat 1 (snd (advance T (snd (advance T p)))))))) = readPosition p + 2 \<and>
      lastGapPos (snd (advance T (write_chunk (0x0A # w # rest) isLastChunk
             (retreat 1 (snd (advance T (snd (advance T p)))))))) =
        Some (readPosition p + 1)) \<and>
   ((\<forall>u\<in>set input. \<not> isSurrogate (uint u)) \<longrightarrow>
      map fst (fst (advances T n (write_chunk input isLastChunk (Preprocessor h)))) =
        take n (map Some (normalizeNewlines False (map uint input)) @
                replicate n (Some EOF))) \<and>
   fst (advances T 7
          (write_chunk [0x61, 0x0D, 0x0A, 0x62, 0x0D, 0x63, 0x0A, 0x64] True
             (Preprocessor Callback))) =
     [(Some 0x61, 1, 1, 0), (Some 0x0A, 1, 2, 1), (Some 0x62, 2, 1, 3), (Some 0x0A, 2, 2, 4),
      (Some 0x63, 3, 1, 5), (Some 0x0A, 3, 2, 6), (Some 0x64, 4, 1, 7)] \<and>
   lastGapPos (snd (advances T 7
          (write_chunk [0x61, 0x0D, 0x0A, 0x62, 0x0D, 0x63, 0x0A, 0x64] True
             (Preprocessor Callback)))) = Some 2"
proof -
  have c1: "fst (advance T p) \<noteq> Some CARRIAGE_RETURN"
    by (rule advance_not_CR)
  have c2: "readPosition p =
     (if skipNextNewLine p \<and> charCodeAt (html p) (pos p + 1) = Some LINE_FEED
      then pos p + 2 else pos p + 1)"
    by (auto simp: readPosition_def skipsLineFeed_def)
  have c3: "charCodeAt (html p) (readPosition p) = Some CARRIAGE_RETURN \<longrightarrow>
      fst (advance T p) = Some LINE_FEED \<and> pos (snd (advance T p)) = readPosition p"
    using advance_reads_CR [of p T] by simp
  have c4: "\<forall>cp. charCodeAt (html p) (readPosition p) = Some cp \<and> cp \<noteq> CARRIAGE_RETURN \<and>
         \<not> isSurrogate cp \<longrightarrow>
      fst (advance T p) = Some cp \<and> pos (snd (advance T p)) = readPosition p"
    using advance_reads_plain [of p _ T] by simp
  have c5: "skipNextNewLine p \<and> charCodeAt (html p) (pos p + 1) = Some LINE_FEED \<longrightarrow>
      pos p + 2 \<le> pos (snd (advance T p)) \<and>
      Some (pos p + 1) \<in> set (lastGapPos (snd (advance T p)) # gapStack (snd (advance T p)))"
    using advance_skips [of p T] by (simp add: skipsLineFeed_def)
  have c6: "skipNextNewLine (snd (advance T p)) \<longleftrightarrow>
      charCodeAt (html p) (readPosition p) = Some CARRIAGE_RETURN \<or>
      (int (length (html p)) \<le> pos p + 1 \<and> skipNextNewLine p)"
    by (rule advance_flag)
  have c7: "skipNextNewLine (retreat count p) = skipNextNewLine p"
    by (simp add: retreat_def split: prod.splits)
  have c8: "skipNextNewLine (write_chunk chunk isLastChunk p) = skipNextNewLine p"
    by (simp add: write_chunk_def)
  have c9: "charCodeAt (html p) (readPosition p) = Some CARRIAGE_RETURN \<and>
    readPosition p + 1 = int (length (html p)) \<and> gapsBehind p \<and>
    uint w \<noteq> CARRIAGE_RETURN \<and> \<not> isSurrogate (uint w) \<longrightarrow>
      fst (advance T p) = Some LINE_FEED \<and>
      fst (advance T (snd (advance T p))) = Some EOF \<and>
      endOfChunkHit (snd (advance T (snd (advance T p)))) = (\<not> lastChunkWritten p) \<and>
      fst (advance T (write_chunk (0x0A # w # rest) isLastChunk
             (retreat 1 (snd (advance T (snd (advance T p))))))) = Some (uint w) \<and>
      pos (snd (advance T (write_chunk (0x0A # w # rest) isLastChunk
             (retreat 1 (snd (advance T (snd (advance T p)))))))) = readPosition p + 2 \<and>
      lastGapPos (snd (advance T (write_chunk (0x0A # w # rest) isLastChunk
             (retreat 1 (snd (advance T (snd (advance T p)))))))) =
        Some (readPosition p + 1)"
    using line_break_across_chunks [of p w T rest isLastChunk] by blast
  have c10: "(\<forall>u\<in>set input. \<not> isSurrogate (uint u)) \<longrightarrow>
      map fst (fst (advances T n (write_chunk input isLastChunk (Preprocessor h)))) =
        take n (map Some (normalizeNewlines False (map uint input)) @
                replicate n (Some EOF))"
  proof
    assume n: "\<forall>u\<in>set input. \<not> isSurrogate (uint u)"
    let ?p = "write_chunk input isLastChunk (Preprocessor h)"
    from n have "\<forall>u\<in>set (html ?p). \<not> isSurrogate (uint u)" "- 1 \<le> pos ?p"
      by (simp_all add: write_chunk_def Preprocessor_def)
    from advances_pending [OF this, of T n]
    show "map fst (fst (advances T n ?p)) =
        take n (map Some (normalizeNewlines False (map uint input)) @
                replicate n (Some EOF))"
      by (simp only: pending_written)
  qed
  have c11: "fst (advances T 7
          (write_chunk [0x61, 0x0D, 0x0A, 0x62, 0x0D, 0x63, 0x0A, 0x64] True
             (Preprocessor Callback))) =
     [(Some 0x61, 1, 1, 0), (Some 0x0A, 1, 2, 1), (Some 0x62, 2, 1, 3), (Some 0x0A, 2, 2, 4),
      (Some 0x63, 3, 1, 5), (Some 0x0A, 3, 2, 6), (Some 0x64, 4, 1, 7)]"
    by code_simp
  have c12: "lastGapPos (snd (advances T 7
          (write_chunk [0x61, 0x0D, 0x0A, 0x62, 0x0D, 0x63, 0x0A, 0x64] True
             (Preprocessor Callback)))) = Some 2"
    by code_simp
  from c1 c2 c3 c4 c5 c6 c7 c8 c9 c10 c11 c12 show ?thesis
    by (intro conjI)
qed

theorem advance_newlines_witness:
  "charCodeAt (html (write_chunk [0x0D, 0x0A, 0x62] True (Preprocessor Callback)))
     (readPosition (write_chunk [0x0D, 0x0A, 0x62] True (Preprocessor Callback))) =
     Some CARRIAGE_RETURN \<and>
   fst (advance standard_tables (write_chunk [0x0D, 0x0A, 0x62] True (Preprocessor Callback))) =
     Some LINE_FEED \<and>
   skipNextNewLine (run standard_tables [Write [0x0D, 0x0A, 0x62] True, Advance]
                      (Preprocessor Callback)) \<and>
   charCodeAt
     (html (run standard_tables [Write [0x0D, 0x0A, 0x62] True, Advance] (Preprocessor Callback)))
     (pos (run standard_tables [Write [0x0D, 0x0A, 0x62] True, Advance] (Preprocessor Callback)) + 1)
     = Some LINE_FEED \<and>
   readPosition (run standard_tables [Write [0x0D, 0x0A, 0x62] True, Advance]
                   (Preprocessor Callback)) = 2 \<and>
   charCodeAt
     (html (run standard_tables [Write [0x0D, 0x0A, 0x62] True, Advance] (Preprocessor Callback)))
     (readPosition (run standard_tables [Write [0x0D, 0x0A, 0x62] True, Advance]
                      (Preprocessor Callback))) = Some 0x62 \<and>
   fst (advance standard_tables
          (run standard_tables [Write [0x0D, 0x0A, 0x62] True, Advance]
             (Preprocessor Callback))) = Some 0x62 \<and>
   2 \<le> pos (snd (advance standard_tables
                 (run standard_tables [Write [0x0D, 0x0A, 0x62] True, Advance]
                    (Preprocessor Callback)))) \<and>
   Some 1 \<in> set (lastGapPos (snd (advance standard_tables
                    (run standard_tables [Write [0x0D, 0x0A, 0x62] True, Advance]
                       (Preprocessor Callback)))) #
                 gapStack (snd (advance standard_tables
                    (run standard_tables [Write [0x0D, 0x0A, 0x62] True, Advance]
                       (Preprocessor Callback))))) \<and>
   charCodeAt
     (html (run standard_tables [Write [0x61, 0x0D] False, Advance] (Preprocessor Callback)))
     (readPosition (run standard_tables [Write [0x61, 0x0D] False, Advance]
                      (Preprocessor Callback))) = Some CARRIAGE_RETURN \<and>
   readPosition (run standard_tables [Write [0x61, 0x0D] False, Advance]
                   (Preprocessor Callback)) + 1 =
     int (length (html (run standard_tables [Write [0x61, 0x0D] False, Advance]
                          (Preprocessor Callback)))) \<and>
   gapsBehind (run standard_tables [Write [0x61, 0x0D] False, Advance] (Preprocessor Callback)) \<and>
   fst (advance standard_tables
          (run standard_tables [Write [0x61, 0x0D] False, Advance, Advance, Advance, Retreat 1,
                                Write [0x0A, 0x62] True]
             (Preprocessor Callback))) = Some 0x62 \<and>
   list_all (\<lambda>u. \<not> isSurrogate (uint u)) [0x61 :: code_unit, 0x0D, 0x0A, 0x62] \<and>
   map fst (fst (advances standard_tables 5
                   (write_chunk [0x61, 0x0D, 0x0A, 0x62] True (Preprocessor Callback)))) =
     [Some 0x61, Some 0x0A, Some 0x62, Some EOF, Some EOF]"
proof -
  let ?p = "write_chunk [0x0D, 0x0A, 0x62] True (Preprocessor Callback)"
  let ?q = "run standard_tables [Write [0x0D, 0x0A, 0x62] True, Advance] (Preprocessor Callback)"
  let ?s = "run standard_tables [Write [0x61, 0x0D] False, Advance] (Preprocessor Callback)"
  have p: "charCodeAt (html ?p) (readPosition ?p) = Some CARRIAGE_RETURN"
    by code_simp
  have q: "skipNextNewLine ?q \<and> charCodeAt (html ?q) (pos ?q + 1) = Some LINE_FEED"
    "pos ?q = 0" "readPosition ?q = 2"
    "charCodeAt (html ?q) (readPosition ?q) = Some 0x62 \<and> 0x62 \<noteq> CARRIAGE_RETURN \<and>
     \<not> isSurrogate 0x62"
    by code_simp+
  have s: "charCodeAt (html ?s) (readPosition ?s) = Some CARRIAGE_RETURN \<and>
      readPosition ?s + 1 = int (length (html ?s)) \<and> gapsBehind ?s \<and>
      uint (0x62 :: code_unit) \<noteq> CARRIAGE_RETURN \<and> \<not> isSurrogate (uint (0x62 :: code_unit))"
    by code_simp
  have i: "list_all (\<lambda>u. \<not> isSurrogate (uint u)) [0x61 :: code_unit, 0x0D, 0x0A, 0x62]"
    by code_simp
  then have i': "\<forall>u\<in>set [0x61 :: code_unit, 0x0D, 0x0A, 0x62]. \<not> isSurrogate (uint u)"
    by (simp only: list_all_iff)
  have n: "take 5 (map Some (normalizeNewlines False (map uint [0x61 :: code_unit, 0x0D, 0x0A, 0x62])) @
                   replicate 5 (Some EOF)) =
      [Some 0x61, Some 0x0A, Some 0x62, Some EOF, Some EOF]"
    by code_simp
  have u: "uint (0x62 :: code_unit) = 0x62"
    by simp
  have r: "run standard_tables [Write [0x61, 0x0D] False, Advance, Advance, Advance, Retreat 1,
                                Write [0x0A, 0x62] True] (Preprocessor Callback) =
      write_chunk (0x0A # 0x62 # []) True
        (retreat 1 (snd (advance standard_tables (snd (advance standard_tables ?s)))))"
    by (simp add: run_def)
  note tp = advance_newlines [where T = standard_tables and p = ?p]
  note tq = advance_newlines [where T = standard_tables and p = ?q]
  note ts = advance_newlines [where T = standard_tables and p = ?s and w = "0x62" and rest = "[]"
      and isLastChunk = True]
  note ti = advance_newlines [where T = standard_tables and n = 5 and isLastChunk = True
      and h = Callback and input = "[0x61, 0x0D, 0x0A, 0x62]"]
  from tp p have 1: "fst (advance standard_tables ?p) = Some LINE_FEED"
    by blast
  from tq q(4) have 2: "fst (advance standard_tables ?q) = Some 0x62"
    by blast
  from tq q(1) have "pos ?q + 2 \<le> pos (snd (advance standard_tables ?q)) \<and>
      Some (pos ?q + 1) \<in> set (lastGapPos (snd (advance standard_tables ?q)) #
                                 gapStack (snd (advance standard_tables ?q)))"
    by blast
  with q(2) have 3: "2 \<le> pos (snd (advance standard_tables ?q))"
    "Some 1 \<in> set (lastGapPos (snd (advance standard_tables ?q)) #
                    gapStack (snd (advance standard_tables ?q)))"
    by simp_all
  from ts s have "fst (advance standard_tables
      (write_chunk (0x0A # 0x62 # []) True
        (retreat 1 (snd (advance standard_tables (snd (advance standard_tables ?s))))))) =
      Some (uint (0x62 :: code_unit))"
    by blast
  then have 4: "fst (advance standard_tables
          (run standard_tables [Write [0x61, 0x0D] False, Advance, Advance, Advance, Retreat 1,
                                Write [0x0A, 0x62] True]
             (Preprocessor Callback))) = Some 0x62"
    unfolding r u .
  from ti i' have "map fst (fst (advances standard_tables 5
                   (write_chunk [0x61, 0x0D, 0x0A, 0x62] True (Preprocessor Callback)))) =
      take 5 (map Some (normalizeNewlines False (map uint [0x61 :: code_unit, 0x0D, 0x0A, 0x62])) @
                   replicate 5 (Some EOF))"
    by blast
  then have 5: "map fst (fst (advances standard_tables 5
                   (write_chunk [0x61, 0x0D, 0x0A, 0x62] True (Preprocessor Callback)))) =
      [Some 0x61, Some 0x0A, Some 0x62, Some EOF, Some EOF]"
    unfolding n .
  from s have s': "charCodeAt (html ?s) (readPosition ?s) = Some CARRIAGE_RETURN"
    "readPosition ?s + 1 = int (length (html ?s))" "gapsBehind ?s"
    by simp_all
  from q(1) have q': "skipNextNewLine ?q" "charCodeAt (html ?q) (pos ?q + 1) = Some LINE_FEED"
    by simp_all
  from q(4) have q4: "charCodeAt (html ?q) (readPosition ?q) = Some 0x62"
    by simp
  from p 1 q' q(3) q4 2 3 s' 4 i 5 show ?thesis
    by (intro conjI)
qed

text \<open>
  The third code point of that input is \<open>b\<close>, read at line 2; the column is then 1, not 0.
\<close>

theorem advance_newlines_counterexample:
  "advances standard_tables 3
     (write_chunk [0x61, 0x0D, 0x0A, 0x62, 0x0D, 0x63, 0x0A, 0x64] True (Preprocessor Callback)) =
     ([(Some 0x61, 1, 1, 0), (Some 0x0A, 1, 2, 1), (Some 0x62, 2, 1, 3)],
      run standard_tables
        [Write [0x61, 0x0D, 0x0A, 0x62, 0x0D, 0x63, 0x0A, 0x64] True, Advance, Advance, Advance]
        (Preprocessor Callback)) \<and>
   col (run standard_tables
        [Write [0x61, 0x0D, 0x0A, 0x62, 0x0D, 0x63, 0x0A, 0x64] True, Advance, Advance, Advance]
        (Preprocessor Callback)) = 1"
  by code_simp

section \<open>The claim about the driver\<close>

lemma drainInsertions_snoc:
  "drainInsertions ins (s\<lparr>pendingHtmlInsertions := hs @ [h]\<rparr>) =
   drainInsertions ins
     (s\<lparr>pendingHtmlInsertions := hs,
        parser := (parser s)\<lparr>tokenizer := ins h (tokenizer (parser s))\<rparr>\<rparr>)"
  by (subst drainInsertions.simps) (simp add: Let_def)

lemma drainInsertions_fold:
  "pendingHtmlInsertions s = hs \<Longrightarrow>
   drainInsertions ins s =
     s\<lparr>pendingHtmlInsertions := [],
       parser := (parser s)\<lparr>tokenizer :=
         foldl (\<lambda>t h. ins h t) (tokenizer (parser s)) (rev hs)\<rparr>\<rparr>"
proof (induction hs arbitrary: s rule: rev_induct)
  case Nil
  then show ?case
    by (subst drainInsertions.simps) simp
next
  case (snoc h hs)
  let ?s' = "s\<lparr>pendingHtmlInsertions := hs,
               parser := (parser s)\<lparr>tokenizer := ins h (tokenizer (parser s))\<rparr>\<rparr>"
  from snoc.prems have "s = s\<lparr>pendingHtmlInsertions := hs @ [h]\<rparr>"
    by simp
  then have "drainInsertions ins s = drainInsertions ins ?s'"
    using drainInsertions_snoc [where ins = ins and s = s and hs = hs and h = h] by simp
  also have "\<dots> = ?s'\<lparr>pendingHtmlInsertions := [],
       parser := (parser ?s')\<lparr>tokenizer :=
         foldl (\<lambda>t h. ins h t) (tokenizer (parser ?s')) (rev hs)\<rparr>\<rparr>"
    by (rule snoc.IH) simp
  finally show ?case
    by simp
qed

lemma forwarded_insertions:
  "foldl (\<lambda>t h. tokenizer_insertHtmlAtCurrentPos h t) t hs =
     t\<lparr>preprocessor := foldl (\<lambda>p h. insertHtmlAtCurrentPos h p) (preprocessor t) hs\<rparr>"
  by (induction hs arbitrary: t) (simp_all add: tokenizer_insertHtmlAtCurrentPos_def)

lemma insertHtmlAtCurrentPos_frame [simp]:
  "pos (insertHtmlAtCurrentPos h p) = pos p"
  "html (insertHtmlAtCurrentPos h p) =
     substring (html p) 0 (pos p + 1) @ h @ substring_from (html p) (pos p + 1)"
  by (simp_all add: insertHtmlAtCurrentPos_def)

lemma insertions_pos [simp]:
  "pos (foldl (\<lambda>p h. insertHtmlAtCurrentPos h p) p hs) = pos p"
  by (induction hs arbitrary: p) simp_all

lemma insertions_html:
  assumes "pos p + 1 \<le> int (length (html p))"
  shows "html (foldl (\<lambda>p h. insertHtmlAtCurrentPos h p) p (rev ws)) =
           substring (html p) 0 (pos p + 1) @ concat ws @ substring_from (html p) (pos p + 1)"
proof (induction ws)
  case Nil
  then show ?case
    by (simp add: substring_def substring_from_def Let_def)
next
  case (Cons w ws)
  let ?q = "foldl (\<lambda>p h. insertHtmlAtCurrentPos h p) p (rev ws)"
  have len: "length (substring (html p) 0 (pos p + 1)) = nat (pos p + 1)"
    using assms by (simp add: substring_def Let_def)
  have "html (foldl (\<lambda>p h. insertHtmlAtCurrentPos h p) p (rev (w # ws))) =
        html (insertHtmlAtCurrentPos w ?q)"
    by simp
  also have "\<dots> = substring (html ?q) 0 (pos p + 1) @ w @ substring_from (html ?q) (pos p + 1)"
    by simp
  also have "\<dots> = substring (html p) 0 (pos p + 1) @ w @ concat ws @
                   substring_from (html p) (pos p + 1)"
    unfolding Cons.IH using len by (simp add: substring_def substring_from_def Let_def)
  finally show ?case by simp
qed

text \<open>
  C8. \<open>resume\<close> fails with the already-resumed error whenever \<open>pausedByScript\<close> is false.
  Otherwise it passes every pending insertion to the tokenizer's
  \<open>insertHtmlAtCurrentPos\<close>, the one received last first, leaves none pending, clears
  \<open>pausedByScript\<close>, and enters the parsing loop if and only if the tokenizer is active
  after that. \<open>documentWrite\<close> on a parser that is not stopped appends to the pending
  insertions, so the order of the calls is the reverse of the order of receipt. With
  \<open>insertHtmlAtCurrentPos\<close> forwarded to the preprocessor, the insertions are spliced in
  right after the cursor; when the cursor is inside the buffer they end up there in the
  order of receipt.
\<close>

theorem resume_effect:
  "(\<not> pausedByScript s \<longrightarrow> resume ins runParsingLoop s = Inl ParserWasAlreadyResumed) \<and>
   (pausedByScript s \<longrightarrow>
      resume ins runParsingLoop s =
        (let t = foldl (\<lambda>t h. ins h t) (tokenizer (parser s)) (rev (pendingHtmlInsertions s));
             s' = s\<lparr>pendingHtmlInsertions := [],
                    parser := (parser s)\<lparr>tokenizer := t\<rparr>,
                    pausedByScript := False\<rparr>
         in if active t then Inr (runParsingLoop s') else Inr s')) \<and>
   (\<not> stopped (parser s) \<longrightarrow>
      pendingHtmlInsertions (documentWrite h s) = pendingHtmlInsertions s @ [h]) \<and>
   foldl (\<lambda>t h. tokenizer_insertHtmlAtCurrentPos h t) t hs =
     t\<lparr>preprocessor := foldl (\<lambda>p h. insertHtmlAtCurrentPos h p) (preprocessor t) hs\<rparr> \<and>
   (pos p + 1 \<le> int (length (html p)) \<longrightarrow>
      html (foldl (\<lambda>p h. insertHtmlAtCurrentPos h p) p (rev ws)) =
        substring (html p) 0 (pos p + 1) @ concat ws @ substring_from (html p) (pos p + 1))"
  by (simp add: resume_def drainInsertions_fold [OF refl] documentWrite_def Let_def
                forwarded_insertions insertions_html)

theorem resume_effect_witness:
  "pausedByScript
     \<lparr> pausedByScript = True,
       parser = \<lparr> tokenizer = \<lparr> active = True,
                    preprocessor = (write_chunk [0x61, 0x62] True (Preprocessor Callback))\<lparr>pos := 0\<rparr> \<rparr>,
                  stopped = False \<rparr>,
       pendingHtmlInsertions = [[0x31], [0x32]] \<rparr> \<and>
   resume tokenizer_insertHtmlAtCurrentPos (\<lambda>s. s)
     \<lparr> pausedByScript = True,
       parser = \<lparr> tokenizer = \<lparr> active = True,
                    preprocessor = (write_chunk [0x61, 0x62] True (Preprocessor Callback))\<lparr>pos := 0\<rparr> \<rparr>,
                  stopped = False \<rparr>,
       pendingHtmlInsertions = [[0x31], [0x32]] \<rparr> =
   Inr \<lparr> pausedByScript = False,
         parser = \<lparr> tokenizer = \<lparr> active = True,
                      preprocessor = (write_chunk [0x61, 0x31, 0x32, 0x62] True (Preprocessor Callback))\<lparr>pos := 0\<rparr> \<rparr>,
                    stopped = False \<rparr>,
         pendingHtmlInsertions = [] \<rparr> \<and>
   resume tokenizer_insertHtmlAtCurrentPos (\<lambda>s. s)
     \<lparr> pausedByScript = False,
       parser = \<lparr> tokenizer = \<lparr> active = True,
                    preprocessor = (write_chunk [0x61, 0x62] True (Preprocessor Callback))\<lparr>pos := 0\<rparr> \<rparr>,
                  stopped = False \<rparr>,
       pendingHtmlInsertions = [[0x31], [0x32]] \<rparr> =
   Inl ParserWasAlreadyResumed"
  using resume_effect
          [where ins = tokenizer_insertHtmlAtCurrentPos and runParsingLoop = "\<lambda>s. s" and s =
            "\<lparr> pausedByScript = True,
               parser = \<lparr> tokenizer = \<lparr> active = True,
                            preprocessor = (write_chunk [0x61, 0x62] True (Preprocessor Callback))\<lparr>pos := 0\<rparr> \<rparr>,
                          stopped = False \<rparr>,
               pendingHtmlInsertions = [[0x31], [0x32]] \<rparr>"]
        resume_effect
          [where ins = tokenizer_insertHtmlAtCurrentPos and runParsingLoop = "\<lambda>s. s" and s =
            "\<lparr> pausedByScript = False,
               parser = \<lparr> tokenizer = \<lparr> active = True,
                            preprocessor = (write_chunk [0x61, 0x62] True (Preprocessor Callback))\<lparr>pos := 0\<rparr> \<rparr>,
                          stopped = False \<rparr>,
               pendingHtmlInsertions = [[0x31], [0x32]] \<rparr>"]
  by (simp add: Let_def tokenizer_insertHtmlAtCurrentPos_def insertHtmlAtCurrentPos_def
                substring_def substring_from_def write_chunk_def Preprocessor_def)

end
